theory Spec2Isabelle
  imports Complex_Main
begin

section \<open>Grid utilities (scripts/utils.py)\<close>

datatype error = IndexError | KeyError | ValueError | ZeroDivisionError

text \<open>\<^verbatim>\<open>is_within_bounds(x, y, width, height)\<close>: \<^verbatim>\<open>0 <= x < width and 0 <= y < height\<close>.\<close>

definition is_within_bounds :: "int \<Rightarrow> int \<Rightarrow> int \<Rightarrow> int \<Rightarrow> bool" where
  "is_within_bounds x y width height \<longleftrightarrow> 0 \<le> x \<and> x < width \<and> 0 \<le> y \<and> y < height"

text \<open>Python list subscription \<^verbatim>\<open>xs[i]\<close> and item assignment \<^verbatim>\<open>xs[i] = v\<close>: a negative
  index counts from the end, an index outside the list raises IndexError.\<close>

definition py_index :: "'a list \<Rightarrow> int \<Rightarrow> int option" where
  "py_index xs i =
     (if 0 \<le> i \<and> i < int (length xs) then Some i
      else if i < 0 \<and> - int (length xs) \<le> i then Some (int (length xs) + i)
      else None)"

definition getitem :: "'a list \<Rightarrow> int \<Rightarrow> error + 'a" where
  "getitem xs i = (case py_index xs i of None \<Rightarrow> Inl IndexError | Some j \<Rightarrow> Inr (xs ! nat j))"

definition setitem :: "'a list \<Rightarrow> int \<Rightarrow> 'a \<Rightarrow> error + 'a list" where
  "setitem xs i v = (case py_index xs i of None \<Rightarrow> Inl IndexError | Some j \<Rightarrow> Inr (xs[nat j := v]))"

text \<open>\<^verbatim>\<open>m[r][c]\<close> and \<^verbatim>\<open>m[r][c] = v\<close> on a list of rows.\<close>

definition getitem2 :: "'a list list \<Rightarrow> int \<Rightarrow> int \<Rightarrow> error + 'a" where
  "getitem2 m r c = (case getitem m r of Inl e \<Rightarrow> Inl e | Inr row \<Rightarrow> getitem row c)"

definition setitem2 :: "'a list list \<Rightarrow> int \<Rightarrow> int \<Rightarrow> 'a \<Rightarrow> error + 'a list list" where
  "setitem2 m r c v =
     (case getitem m r of
        Inl e \<Rightarrow> Inl e
      | Inr row \<Rightarrow> (case setitem row c v of Inl e \<Rightarrow> Inl e | Inr row' \<Rightarrow> setitem m r row'))"

section \<open>Rectangles (pygame.Rect, integer coordinates)\<close>

record rect =
  r_left :: int
  r_top :: int
  r_w :: int
  r_h :: int

definition r_right :: "rect \<Rightarrow> int" where
  "r_right r = r_left r + r_w r"

definition r_bottom :: "rect \<Rightarrow> int" where
  "r_bottom r = r_top r + r_h r"

text \<open>Assigning \<^verbatim>\<open>rect.right\<close> or \<^verbatim>\<open>rect.bottom\<close> moves the rectangle, the size stays.\<close>

definition set_right :: "rect \<Rightarrow> int \<Rightarrow> rect" where
  "set_right r v = r\<lparr>r_left := v - r_w r\<rparr>"

definition set_bottom :: "rect \<Rightarrow> int \<Rightarrow> rect" where
  "set_bottom r v = r\<lparr>r_top := v - r_h r\<rparr>"

text \<open>C integer division by two, as \<^verbatim>\<open>Rect.inflate\<close> uses it: it truncates towards zero.\<close>

definition half_trunc :: "int \<Rightarrow> int" where
  "half_trunc a = (if 0 \<le> a then a div 2 else - ((- a) div 2))"

definition inflate :: "rect \<Rightarrow> int \<times> int \<Rightarrow> rect" where
  "inflate r d =
     \<lparr>r_left = r_left r - half_trunc (fst d), r_top = r_top r - half_trunc (snd d),
      r_w = r_w r + fst d, r_h = r_h r + snd d\<rparr>"

definition move_rect :: "rect \<Rightarrow> int \<times> int \<Rightarrow> rect" where
  "move_rect r d = r\<lparr>r_left := r_left r + fst d, r_top := r_top r + snd d\<rparr>"

text \<open>\<^verbatim>\<open>Rect.colliderect\<close>: a rectangle of zero width or height collides with nothing;
  otherwise the open interiors must meet, so rectangles that only touch do not collide.\<close>

definition colliderect :: "rect \<Rightarrow> rect \<Rightarrow> bool" where
  "colliderect a b \<longleftrightarrow>
     \<not> (r_w a = 0 \<or> r_h a = 0 \<or> r_w b = 0 \<or> r_h b = 0) \<and>
     min (r_left a) (r_right a) < max (r_left b) (r_right b) \<and>
     min (r_top a) (r_bottom a) < max (r_top b) (r_bottom b) \<and>
     max (r_left a) (r_right a) > min (r_left b) (r_right b) \<and>
     max (r_top a) (r_bottom a) > min (r_top b) (r_bottom b)"

section \<open>Level grid (scripts/map.py, scripts/tile.py)\<close>

datatype plane = Foreground | Background

record tilecode =
  tc_type :: string
  variation :: int

text \<open>An image is known here by its size only.\<close>

type_synonym image = "int \<times> int"

text \<open>A placed tile. \<open>tile_id\<close> stands for the identity of the Python object: two tiles
  built by two calls are different members of a set even when all their fields agree.\<close>

record tile =
  tile_id :: nat
  t_pos :: "int \<times> int"
  tile_image :: image
  tile_collider :: rect
  collidable :: bool
  tile_visible :: bool

text \<open>\<^verbatim>\<open>Tile.__init__\<close>: the collider is the image rectangle at the pixel position, inflated
  and then moved.\<close>

definition Tile :: "nat \<Rightarrow> int \<times> int \<Rightarrow> image \<Rightarrow> int \<times> int \<Rightarrow> int \<times> int \<Rightarrow> bool \<Rightarrow> bool \<Rightarrow> tile" where
  "Tile ident pos img collider_inflate collider_move vis coll =
     \<lparr>tile_id = ident, t_pos = pos, tile_image = img,
      tile_collider =
        move_rect (inflate \<lparr>r_left = fst pos, r_top = snd pos, r_w = fst img, r_h = snd img\<rparr>
                     collider_inflate) collider_move,
      collidable = coll, tile_visible = vis\<rparr>"

text \<open>The \<^verbatim>\<open>Map\<close> object. \<open>size_rows\<close> and \<open>size_cols\<close> are \<^verbatim>\<open>__size[0]\<close> and
  \<^verbatim>\<open>__size[1]\<close>; the two sprite groups are sets of tiles; \<open>next_id\<close> numbers the
  tiles created so far. The optional extra groups of \<^verbatim>\<open>place_tile\<close> are not part of the
  map and are left out.\<close>

record level =
  graphics :: "string \<rightharpoonup> image list"
  size_rows :: int
  size_cols :: int
  border_size :: int
  tile_size :: int
  foreground_tiles :: "tile set"
  background_tiles :: "tile set"
  matrix_foreground :: "tile option list list"
  matrix_background :: "tile option list list"
  next_id :: nat

definition width :: "level \<Rightarrow> int" where
  "width m = size_cols m"

definition height :: "level \<Rightarrow> int" where
  "height m = size_rows m"

definition matrix :: "level \<Rightarrow> plane \<Rightarrow> tile option list list" where
  "matrix m p = (case p of Foreground \<Rightarrow> matrix_foreground m | Background \<Rightarrow> matrix_background m)"

definition get_tile :: "level \<Rightarrow> int \<times> int \<Rightarrow> plane \<Rightarrow> error + tile option" where
  "get_tile m pos p =
     (if \<not> is_within_bounds (fst pos) (snd pos) (width m) (height m) then Inl IndexError
      else getitem2 (matrix m p) (snd pos) (fst pos))"

text \<open>The double loop of \<^verbatim>\<open>get_tiles_square\<close>: \<open>x\<close> outside, \<open>y\<close> inside. The result is
  a Python set; it is kept as the list of its members in the order the loop meets them.\<close>

fun square_column :: "level \<Rightarrow> plane \<Rightarrow> int \<Rightarrow> int list \<Rightarrow> error + tile list" where
  "square_column m p x [] = Inr []"
| "square_column m p x (y # ys) =
     (if is_within_bounds x y (width m) (height m) then
        (case get_tile m (x, y) p of
           Inl e \<Rightarrow> Inl e
         | Inr None \<Rightarrow> square_column m p x ys
         | Inr (Some t) \<Rightarrow>
             (case square_column m p x ys of Inl e \<Rightarrow> Inl e | Inr ts \<Rightarrow> Inr (t # ts)))
      else square_column m p x ys)"

fun square_rows :: "level \<Rightarrow> plane \<Rightarrow> int list \<Rightarrow> int list \<Rightarrow> error + tile list" where
  "square_rows m p [] ys = Inr []"
| "square_rows m p (x # xs) ys =
     (case square_column m p x ys of
        Inl e \<Rightarrow> Inl e
      | Inr ts \<Rightarrow> (case square_rows m p xs ys of Inl e \<Rightarrow> Inl e | Inr us \<Rightarrow> Inr (ts @ us)))"

definition get_tiles_square :: "level \<Rightarrow> int \<times> int \<Rightarrow> int \<times> int \<Rightarrow> plane \<Rightarrow> error + tile list" where
  "get_tiles_square m pos radius p =
     (if \<not> is_within_bounds (fst pos) (snd pos) (width m) (height m) then Inl IndexError
      else
        let x_min = fst pos - fst radius; x_max = (fst pos + 1) + fst radius;
            y_min = snd pos - snd radius; y_max = (snd pos + 1) + snd radius
        in square_rows m p [x_min .. x_max - 1] [y_min .. y_max - 1])"

text \<open>The two tables of \<^verbatim>\<open>place_tile\<close>, read with \<^verbatim>\<open>dict.get(key, (0, 0))\<close>.\<close>

definition tile_inflate :: "string \<Rightarrow> int \<times> int" where
  "tile_inflate ty =
     (if ty = ''wall'' then (0, -8) else if ty = ''wall_top'' then (0, -8)
      else if ty = ''stone'' then (-4, -4) else (0, 0))"

definition tile_move :: "string \<Rightarrow> int \<times> int" where
  "tile_move ty =
     (if ty = ''wall'' then (0, -10) else if ty = ''wall_top'' then (0, 4) else (0, 0))"

text \<open>\<^verbatim>\<open>random.choice(seq)\<close> with the drawn number \<open>r\<close> given: IndexError on an empty
  sequence, otherwise one of its members.\<close>

definition choice :: "nat \<Rightarrow> 'a list \<Rightarrow> error + 'a" where
  "choice r xs = (if xs = [] then Inl IndexError else Inr (xs ! (r mod length xs)))"

text \<open>A mutating method returns the exception it raised, if any, and the map as it is
  left behind.\<close>

definition register_tile :: "level \<Rightarrow> int \<times> int \<Rightarrow> plane \<Rightarrow> tile \<Rightarrow> error option \<times> level" where
  "register_tile m pos p t =
     (case p of
        Foreground \<Rightarrow>
          (case setitem2 (matrix_foreground m) (snd pos) (fst pos) (Some t) of
             Inl e \<Rightarrow> (Some e, m)
           | Inr mx \<Rightarrow>
               (None, m\<lparr>matrix_foreground := mx,
                         foreground_tiles := insert t (foreground_tiles m),
                         next_id := Suc (next_id m)\<rparr>))
      | Background \<Rightarrow>
          (case setitem2 (matrix_background m) (snd pos) (fst pos) (Some t) of
             Inl e \<Rightarrow> (Some e, m)
           | Inr mx \<Rightarrow>
               (None, m\<lparr>matrix_background := mx,
                         background_tiles := insert t (background_tiles m),
                         next_id := Suc (next_id m)\<rparr>)))"

definition place_tile ::
  "level \<Rightarrow> int \<times> int \<Rightarrow> tilecode \<Rightarrow> plane \<Rightarrow> bool \<Rightarrow> bool \<Rightarrow> nat \<Rightarrow> error option \<times> level" where
  "place_tile m pos tile_code p vis coll rnd =
     (if \<not> is_within_bounds (fst pos) (snd pos) (width m) (height m) then (Some IndexError, m)
      else
        let pixel_pos = (fst pos * tile_size m, snd pos * tile_size m) in
        if tc_type tile_code = ''None'' then (None, m)
        else
          let code = (if tc_type tile_code \<notin> dom (graphics m)
                      then \<lparr>tc_type = ''None'', variation = 0\<rparr> else tile_code)
          in (case graphics m (tc_type code) of
                None \<Rightarrow> (Some KeyError, m)
              | Some imgs \<Rightarrow>
                  (case (if 0 \<le> variation code \<and> variation code < int (length imgs)
                         then Inr (imgs ! nat (variation code)) else choice rnd imgs) of
                     Inl e \<Rightarrow> (Some e, m)
                   | Inr img \<Rightarrow>
                       register_tile m pos p
                         (Tile (next_id m) pixel_pos img (tile_inflate (tc_type code))
                            (tile_move (tc_type code)) vis coll))))"

text \<open>\<^verbatim>\<open>Sprite.kill\<close> takes the sprite out of every group it is in; a tile of the map is
  in the group of its plane.\<close>

definition kill :: "tile \<Rightarrow> level \<Rightarrow> level" where
  "kill t m = m\<lparr>foreground_tiles := foreground_tiles m - {t},
                 background_tiles := background_tiles m - {t}\<rparr>"

definition remove_tile :: "level \<Rightarrow> int \<times> int \<Rightarrow> plane \<Rightarrow> error option \<times> level" where
  "remove_tile m pos p =
     (if \<not> is_within_bounds (fst pos) (snd pos) (width m) (height m) then (Some IndexError, m)
      else
        (case get_tile m pos p of
           Inl e \<Rightarrow> (Some e, m)
         | Inr None \<Rightarrow> (None, m)
         | Inr (Some t) \<Rightarrow>
             (case p of
                Foreground \<Rightarrow>
                  (case setitem2 (matrix_foreground (kill t m)) (fst pos) (snd pos) None of
                     Inl e \<Rightarrow> (Some e, kill t m)
                   | Inr mx \<Rightarrow> (None, (kill t m)\<lparr>matrix_foreground := mx\<rparr>))
              | Background \<Rightarrow>
                  (case setitem2 (matrix_background (kill t m)) (fst pos) (snd pos) None of
                     Inl e \<Rightarrow> (Some e, kill t m)
                   | Inr mx \<Rightarrow> (None, (kill t m)\<lparr>matrix_background := mx\<rparr>)))))"

text \<open>The invariant of the data model: both matrices have \<open>height\<close> rows of \<open>width\<close> cells.\<close>

definition grid_ok :: "level \<Rightarrow> bool" where
  "grid_ok m \<longleftrightarrow>
     0 \<le> width m \<and> 0 \<le> height m \<and>
     length (matrix_foreground m) = nat (height m) \<and>
     length (matrix_background m) = nat (height m) \<and>
     list_all (\<lambda>row. length row = nat (width m)) (matrix_foreground m) \<and>
     list_all (\<lambda>row. length row = nat (width m)) (matrix_background m)"

text \<open>\<^verbatim>\<open>Map.clear\<close>, and the first lines of \<^verbatim>\<open>Map.generate\<close>: the map is cleared, its
  size is set to 62 by 62 and both matrices are allocated empty.\<close>

definition clear :: "level \<Rightarrow> level" where
  "clear m = m\<lparr>foreground_tiles := {}, background_tiles := {},
                matrix_foreground := [], matrix_background := []\<rparr>"

definition generate_setup :: "level \<Rightarrow> level" where
  "generate_setup m =
     (let m1 = (clear m)\<lparr>size_rows := 31 * 2, size_cols := 31 * 2\<rparr>
      in m1\<lparr>matrix_background := replicate (nat (height m1)) (replicate (nat (width m1)) None),
             matrix_foreground := replicate (nat (height m1)) (replicate (nat (width m1)) None)\<rparr>)"

text \<open>\<^verbatim>\<open>Map.__init__\<close> before it calls \<^verbatim>\<open>generate\<close>.\<close>

definition Map_init :: "(string \<rightharpoonup> image list) \<Rightarrow> int \<Rightarrow> level" where
  "Map_init g ts =
     \<lparr>graphics = g, size_rows = 0, size_cols = 0, border_size = 2, tile_size = ts,
      foreground_tiles = {}, background_tiles = {},
      matrix_foreground = [], matrix_background = [], next_id = 0\<rparr>"

section \<open>Moving sprites (scripts/sprite.py)\<close>

text \<open>Positions are \<^verbatim>\<open>pygame.Vector2\<close> values. Their float components are taken as real
  numbers, so rounding error of the float arithmetic is outside this model; rectangles keep
  integer coordinates as in pygame.\<close>

type_synonym vec = "real \<times> real"

definition magnitude :: "vec \<Rightarrow> real" where
  "magnitude v = sqrt (fst v * fst v + snd v * snd v)"

definition normalize_vec :: "vec \<Rightarrow> vec" where
  "normalize_vec v = (fst v / magnitude v, snd v / magnitude v)"

text \<open>\<^verbatim>\<open>math.copysign(a, b)\<close>.\<close>

definition copysign :: "real \<Rightarrow> real \<Rightarrow> real" where
  "copysign a b = (if b < 0 then - \<bar>a\<bar> else \<bar>a\<bar>)"

text \<open>\<^verbatim>\<open>round(x)\<close> rounds to the nearest integer and a tie to the even one;
  \<^verbatim>\<open>int(x)\<close> truncates towards zero.\<close>

definition py_round :: "real \<Rightarrow> int" where
  "py_round x =
     (let f = \<lfloor>x\<rfloor>; d = x - of_int f
      in if d < 1 / 2 then f else if 1 / 2 < d then f + 1 else if even f then f else f + 1)"

definition py_int :: "real \<Rightarrow> int" where
  "py_int x = (if 0 \<le> x then \<lfloor>x\<rfloor> else \<lceil>x\<rceil>)"

text \<open>The integer that a \<^verbatim>\<open>pygame.Rect\<close> stores when a float is assigned to one of its
  coordinates: the nearest integer, with a tie taken away from zero. The code
  gives a float to a rectangle in one place only, \<^verbatim>\<open>get_rect(topleft=pos)\<close> of the
  constructor; everywhere else it converts with \<^verbatim>\<open>round\<close> or \<^verbatim>\<open>int\<close> first.\<close>

definition rect_coord :: "real \<Rightarrow> int" where
  "rect_coord x =
     (if 0 \<le> x then (if x - of_int \<lfloor>x\<rfloor> < 1 / 2 then \<lfloor>x\<rfloor> else \<lfloor>x\<rfloor> + 1)
      else (if of_int \<lceil>x\<rceil> - x < 1 / 2 then \<lceil>x\<rceil> else \<lceil>x\<rceil> - 1))"

text \<open>The spatial state of a \<^verbatim>\<open>MovingSprite\<close>, with the \<^verbatim>\<open>_vulnerable\<close> flag that every
  \<^verbatim>\<open>Entity\<close> adds to it.\<close>

record actor =
  pos :: vec
  collider :: rect
  hitbox :: rect
  vulnerable :: bool

text \<open>\<^verbatim>\<open>MovingSprite.__init__\<close> followed by \<^verbatim>\<open>Entity.__init__\<close>: the collider is the
  image rectangle at the position, the hitbox is the collider shrunk by four pixels
  around its centre.\<close>

definition MovingSprite :: "vec \<Rightarrow> image \<Rightarrow> actor" where
  "MovingSprite p img =
     (let c = \<lparr>r_left = rect_coord (fst p), r_top = rect_coord (snd p),
                r_w = fst img, r_h = snd img\<rparr>
      in \<lparr>pos = p, collider = c, hitbox = inflate c (-4, -4), vulnerable = True\<rparr>)"

text \<open>The setter of \<^verbatim>\<open>pos\<close>.\<close>

definition set_pos :: "actor \<Rightarrow> vec \<Rightarrow> actor" where
  "set_pos a p =
     a\<lparr>pos := p,
       collider := (collider a)\<lparr>r_left := py_int (fst p), r_top := py_int (snd p)\<rparr>,
       hitbox := (hitbox a)\<lparr>r_left := py_int (fst p), r_top := py_int (snd p)\<rparr>\<rparr>"

text \<open>The getter of \<^verbatim>\<open>tile_pos\<close>: floor division of the position by the tile size.\<close>

definition tile_pos :: "level \<Rightarrow> actor \<Rightarrow> error + int \<times> int" where
  "tile_pos m a =
     (if tile_size m = 0 then Inl ZeroDivisionError
      else Inr (\<lfloor>fst (pos a) / of_int (tile_size m)\<rfloor>, \<lfloor>snd (pos a) / of_int (tile_size m)\<rfloor>))"

text \<open>\<^verbatim>\<open>_get_obstacles\<close>: the collidable foreground tiles in the square of radius one
  around the actor's tile.\<close>

definition get_obstacles :: "level \<Rightarrow> actor \<Rightarrow> error + tile list" where
  "get_obstacles m a =
     (case tile_pos m a of
        Inl e \<Rightarrow> Inl e
      | Inr tp \<Rightarrow>
          (case get_tiles_square m tp (1, 1) Foreground of
             Inl e \<Rightarrow> Inl e
           | Inr ts \<Rightarrow> Inr (filter collidable ts)))"

text \<open>\<^verbatim>\<open>_check_hit\<close> of the base class. The entities come from the hook
  \<^verbatim>\<open>_get_entities\<close>, which subclasses are to override (the base class returns the empty
  set); its result is passed in.\<close>

fun check_hit_loop :: "actor \<Rightarrow> actor list \<Rightarrow> bool \<Rightarrow> bool" where
  "check_hit_loop a [] hit = hit"
| "check_hit_loop a (e # es) hit =
     check_hit_loop a es (if vulnerable e \<and> colliderect (hitbox a) (hitbox e) then True else hit)"

definition check_hit :: "actor \<Rightarrow> actor list \<Rightarrow> bool" where
  "check_hit a entities = check_hit_loop a entities False"

text \<open>\<^verbatim>\<open>__colision\<close>, one loop for each axis. The loop runs over the obstacles found when
  it starts; the pair holds the actor and the flag \<^verbatim>\<open>collision\<close>.\<close>

fun colision_horizontal :: "vec \<Rightarrow> tile list \<Rightarrow> actor \<times> bool \<Rightarrow> actor \<times> bool" where
  "colision_horizontal move_dir [] (a, c) = (a, c)"
| "colision_horizontal move_dir (t # ts) (a, c) =
     colision_horizontal move_dir ts
       (if colliderect (collider a) (tile_collider t) then
          (if fst move_dir > 0 then
             (let cl = set_right (collider a) (r_left (tile_collider t))
              in (a\<lparr>collider := cl, pos := (of_int (r_left cl), snd (pos a))\<rparr>, True))
           else if fst move_dir < 0 then
             (let cl = (collider a)\<lparr>r_left := r_right (tile_collider t)\<rparr>
              in (a\<lparr>collider := cl, pos := (of_int (r_left cl), snd (pos a))\<rparr>, True))
           else (a, c))
        else (a, c))"

fun colision_vertical :: "vec \<Rightarrow> tile list \<Rightarrow> actor \<times> bool \<Rightarrow> actor \<times> bool" where
  "colision_vertical move_dir [] (a, c) = (a, c)"
| "colision_vertical move_dir (t # ts) (a, c) =
     colision_vertical move_dir ts
       (if collidable t \<and> colliderect (collider a) (tile_collider t) then
          (if snd move_dir > 0 then
             (let cl = set_bottom (collider a) (r_top (tile_collider t))
              in (a\<lparr>collider := cl, pos := (fst (pos a), of_int (r_top cl))\<rparr>, True))
           else if snd move_dir < 0 then
             (let cl = (collider a)\<lparr>r_top := r_bottom (tile_collider t)\<rparr>
              in (a\<lparr>collider := cl, pos := (fst (pos a), of_int (r_top cl))\<rparr>, True))
           else (a, c))
        else (a, c))"

datatype axis = Horizontal | Vertical

definition colision :: "axis \<Rightarrow> level \<Rightarrow> vec \<Rightarrow> actor \<Rightarrow> error + actor \<times> bool" where
  "colision ax m move_dir a =
     (case get_obstacles m a of
        Inl e \<Rightarrow> Inl e
      | Inr ts \<Rightarrow>
          (case ax of
             Horizontal \<Rightarrow> Inr (colision_horizontal move_dir ts (a, False))
           | Vertical \<Rightarrow> Inr (colision_vertical move_dir ts (a, False))))"

text \<open>The variables of one call of \<^verbatim>\<open>_move\<close>: the sprite, \<^verbatim>\<open>distance_to_walk\<close> and
  \<^verbatim>\<open>collided\<close>.\<close>

record walk =
  sprite :: actor
  distance_to_walk :: vec
  collided :: bool

text \<open>Moving one step along an axis and bringing both rectangles to the rounded
  position.\<close>

definition step_x :: "vec \<Rightarrow> vec \<Rightarrow> walk \<Rightarrow> walk" where
  "step_x direction step w =
     (let a = sprite w; dx = fst (distance_to_walk w); dy = snd (distance_to_walk w);
          (px, dx') =
            (if dx - fst step * \<bar>fst direction\<bar> < 0 then (fst (pos a) + copysign dx (fst direction), 0)
             else (fst (pos a) + fst step * fst direction, dx - fst step * \<bar>fst direction\<bar>))
      in w\<lparr>sprite := a\<lparr>pos := (px, snd (pos a)),
                         collider := (collider a)\<lparr>r_left := py_round px\<rparr>,
                         hitbox := (hitbox a)\<lparr>r_left := py_round px\<rparr>\<rparr>,
           distance_to_walk := (dx', dy)\<rparr>)"

definition step_y :: "vec \<Rightarrow> vec \<Rightarrow> walk \<Rightarrow> walk" where
  "step_y direction step w =
     (let a = sprite w; dx = fst (distance_to_walk w); dy = snd (distance_to_walk w);
          (py, dy') =
            (if dy - snd step * \<bar>snd direction\<bar> < 0 then (snd (pos a) + copysign dy (snd direction), 0)
             else (snd (pos a) + snd step * snd direction, dy - snd step * \<bar>snd direction\<bar>))
      in w\<lparr>sprite := a\<lparr>pos := (fst (pos a), py),
                         collider := (collider a)\<lparr>r_top := py_round py\<rparr>,
                         hitbox := (hitbox a)\<lparr>r_top := py_round py\<rparr>\<rparr>,
           distance_to_walk := (dx, dy')\<rparr>)"

text \<open>The two halves of the loop body: a step, then the test
  \<^verbatim>\<open>self.__colision(...) or self._check_hit()\<close>.\<close>

definition horizontal :: "level \<Rightarrow> actor list \<Rightarrow> vec \<Rightarrow> vec \<Rightarrow> walk \<Rightarrow> error + walk" where
  "horizontal m entities direction step w =
     (if fst (distance_to_walk w) \<noteq> 0 then
        (let w1 = step_x direction step w in
         case colision Horizontal m direction (sprite w1) of
           Inl e \<Rightarrow> Inl e
         | Inr (a, c) \<Rightarrow>
             if c \<or> check_hit a entities
             then Inr (w1\<lparr>sprite := a, collided := True,
                         distance_to_walk := (0, snd (distance_to_walk w1))\<rparr>)
             else Inr (w1\<lparr>sprite := a\<rparr>))
      else Inr w)"

definition vertical :: "level \<Rightarrow> actor list \<Rightarrow> vec \<Rightarrow> vec \<Rightarrow> walk \<Rightarrow> error + walk" where
  "vertical m entities direction step w =
     (if snd (distance_to_walk w) \<noteq> 0 then
        (let w1 = step_y direction step w in
         case colision Vertical m direction (sprite w1) of
           Inl e \<Rightarrow> Inl e
         | Inr (a, c) \<Rightarrow>
             if c \<or> check_hit a entities
             then Inr (w1\<lparr>sprite := a, collided := True,
                         distance_to_walk := (fst (distance_to_walk w1), 0)\<rparr>)
             else Inr (w1\<lparr>sprite := a\<rparr>))
      else Inr w)"

text \<open>The \<^verbatim>\<open>while\<close> loop of \<^verbatim>\<open>_move\<close>, with a bound on the number of rounds: \<open>None\<close>
  when the bound is used up before the loop ends, otherwise the exception raised or the
  variables at the end.\<close>

fun move_loop :: "nat \<Rightarrow> level \<Rightarrow> actor list \<Rightarrow> vec \<Rightarrow> vec \<Rightarrow> walk \<Rightarrow> (error + walk) option" where
  "move_loop 0 m entities direction step w =
     (if magnitude (distance_to_walk w) \<noteq> 0 then None else Some (Inr w))"
| "move_loop (Suc n) m entities direction step w =
     (if magnitude (distance_to_walk w) \<noteq> 0 then
        (case horizontal m entities direction step w of
           Inl e \<Rightarrow> Some (Inl e)
         | Inr w1 \<Rightarrow>
             (case vertical m entities direction step w1 of
                Inl e \<Rightarrow> Some (Inl e)
              | Inr w2 \<Rightarrow> move_loop n m entities direction step w2))
      else Some (Inr w))"

text \<open>\<^verbatim>\<open>_move(distance, direction)\<close>: the sprite afterwards and the returned flag.\<close>

definition move ::
  "nat \<Rightarrow> level \<Rightarrow> actor list \<Rightarrow> actor \<Rightarrow> real \<Rightarrow> vec \<Rightarrow> (error + actor \<times> bool) option" where
  "move fuel m entities a distance direction =
     (let d = (if magnitude direction > 0 then normalize_vec direction else direction);
          to_walk = (\<bar>fst d * distance\<bar>, \<bar>snd d * distance\<bar>);
          step = (of_int (r_w (hitbox a)), of_int (r_h (hitbox a)))
      in case move_loop fuel m entities d step
                \<lparr>sprite = a, distance_to_walk = to_walk, collided = False\<rparr> of
           None \<Rightarrow> None
         | Some (Inl e) \<Rightarrow> Some (Inl e)
         | Some (Inr w) \<Rightarrow> Some (Inr (sprite w, collided w)))"

text \<open>What is left of a round of the loop, and of the call, after its horizontal half.\<close>

definition after_horizontal ::
  "nat \<Rightarrow> level \<Rightarrow> actor list \<Rightarrow> vec \<Rightarrow> vec \<Rightarrow> walk \<Rightarrow> (error + walk) option" where
  "after_horizontal n m entities direction step w1 =
     (case vertical m entities direction step w1 of
        Inl e \<Rightarrow> Some (Inl e)
      | Inr w2 \<Rightarrow> move_loop n m entities direction step w2)"

section \<open>Maze generation (scripts/map.py)\<close>

text \<open>The three cell values \<^verbatim>\<open>__WALL\<close>, \<^verbatim>\<open>__AIR\<close> and \<^verbatim>\<open>__HOLE\<close>.\<close>

datatype cell = WALL | AIR | HOLE

type_synonym maze = "cell list list"

text \<open>\<^verbatim>\<open>maze[y][x]\<close> and \<^verbatim>\<open>maze[y][x] = v\<close>. In the generator every such subscript is
  either an index of \<^verbatim>\<open>enumerate\<close> or guarded by \<^verbatim>\<open>is_within_bounds\<close> on the size of
  the matrix, so it is in range and not negative when the border is not negative.\<close>

definition cell_at :: "maze \<Rightarrow> int \<Rightarrow> int \<Rightarrow> cell" where
  "cell_at mz x y = mz ! nat y ! nat x"

definition set_cell :: "maze \<Rightarrow> int \<Rightarrow> int \<Rightarrow> cell \<Rightarrow> maze" where
  "set_cell mz x y v = mz[nat y := (mz ! nat y)[nat x := v]]"

text \<open>The random source is the sequence \<open>rnd\<close> of raw draws, read at a counter that
  every draw advances. \<^verbatim>\<open>random.shuffle\<close> exchanges each position, from the last one
  down to the second, with a drawn position not after it; \<^verbatim>\<open>random.randint(1, 10)\<close>
  maps a draw into \<open>1..10\<close>.\<close>

fun shuffle_from :: "nat \<Rightarrow> (nat \<Rightarrow> nat) \<Rightarrow> nat \<Rightarrow> 'a list \<Rightarrow> 'a list \<times> nat" where
  "shuffle_from 0 rnd k xs = (xs, k)"
| "shuffle_from (Suc i) rnd k xs =
     (let j = rnd k mod Suc (Suc i)
      in shuffle_from i rnd (Suc k) (xs[Suc i := xs ! j, j := xs ! Suc i]))"

definition shuffle :: "(nat \<Rightarrow> nat) \<Rightarrow> nat \<Rightarrow> 'a list \<Rightarrow> 'a list \<times> nat" where
  "shuffle rnd k xs = shuffle_from (length xs - 1) rnd k xs"

definition randint_1_10 :: "(nat \<Rightarrow> nat) \<Rightarrow> nat \<Rightarrow> int" where
  "randint_1_10 rnd k = 1 + int (rnd k mod 10)"

text \<open>The direction tables, as pairs \<open>(dy, dx)\<close>.\<close>

definition directions :: "(int \<times> int) list" where
  "directions = [(1, 0), (-1, 0), (0, 1), (0, -1)]"

definition adjacent_directions :: "(int \<times> int) list" where
  "adjacent_directions = [(0, 1), (0, -1), (1, 0), (1, 1), (0, -1), (-1, 0), (-1, 1), (-1, -1)]"

definition expand_directions :: "(int \<times> int) list" where
  "expand_directions = [(0, 0), (0, 1), (1, 0), (1, 1)]"

subsection \<open>Carving\<close>

text \<open>\<^verbatim>\<open>__has_unvisited_neighbors\<close>, and the \<^verbatim>\<open>for\<close> loop that picks the first direction
  whose cell two steps away is still a wall.\<close>

definition unvisited :: "maze \<Rightarrow> int \<Rightarrow> int \<Rightarrow> int \<times> int \<Rightarrow> int \<times> int \<Rightarrow> bool" where
  "unvisited mz w h p d =
     (let nx = fst p + snd d * 2; ny = snd p + fst d * 2
      in is_within_bounds nx ny w h \<and> cell_at mz nx ny = WALL)"

fun has_unvisited_neighbors :: "maze \<Rightarrow> int \<Rightarrow> int \<Rightarrow> (int \<times> int) list \<Rightarrow> int \<times> int \<Rightarrow> bool" where
  "has_unvisited_neighbors mz w h [] p = False"
| "has_unvisited_neighbors mz w h (d # ds) p =
     (if unvisited mz w h p d then True else has_unvisited_neighbors mz w h ds p)"

fun first_unvisited :: "maze \<Rightarrow> int \<Rightarrow> int \<Rightarrow> int \<times> int \<Rightarrow> (int \<times> int) list \<Rightarrow> (int \<times> int) option" where
  "first_unvisited mz w h p [] = None"
| "first_unvisited mz w h p (d # ds) =
     (if unvisited mz w h p d then Some d else first_unvisited mz w h p ds)"

text \<open>The \<^verbatim>\<open>while stack\<close> loop, with a bound on its rounds (\<open>None\<close> when the bound is
  used up). The stack is kept with its top first. The result is the maze, the direction
  list as the shuffles left it, and the counter of the random source.\<close>

fun carve_loop ::
  "nat \<Rightarrow> (nat \<Rightarrow> nat) \<Rightarrow> int \<Rightarrow> int \<Rightarrow> maze \<Rightarrow> (int \<times> int) list \<Rightarrow> nat \<Rightarrow> (int \<times> int) list
     \<Rightarrow> (maze \<times> (int \<times> int) list \<times> nat) option" where
  "carve_loop 0 rnd w h mz dirs k stack = (if stack = [] then Some (mz, dirs, k) else None)"
| "carve_loop (Suc n) rnd w h mz dirs k [] = Some (mz, dirs, k)"
| "carve_loop (Suc n) rnd w h mz dirs k (c # rest) =
     (if has_unvisited_neighbors mz w h dirs c then
        (let mz1 = set_cell mz (fst c) (snd c) AIR;
             (dirs1, k1) = shuffle rnd k dirs
         in case first_unvisited mz1 w h c dirs1 of
              None \<Rightarrow> carve_loop n rnd w h mz1 dirs1 k1 (c # rest)
            | Some d \<Rightarrow>
                (let nx = fst c + snd d * 2; ny = snd c + fst d * 2;
                     mz2 = set_cell mz1 (fst c + snd d) (snd c + fst d) AIR;
                     mz3 = set_cell mz2 nx ny HOLE
                 in carve_loop n rnd w h mz3 dirs1 k1 ((nx, ny) # c # rest)))
      else carve_loop n rnd w h mz dirs k rest)"

text \<open>The first part of \<^verbatim>\<open>__create_maze\<close> for a half-size grid of \<open>w\<close> by \<open>h\<close> cells: the
  grid of walls, the start cell in its middle, the loop, and the start cell marked
  \<^verbatim>\<open>__HOLE\<close> again. Writing the start cell of an empty grid raises IndexError.\<close>

definition start_cell :: "int \<Rightarrow> int \<Rightarrow> int \<times> int" where
  "start_cell w h = (half_trunc w, half_trunc h)"

definition carve ::
  "nat \<Rightarrow> (nat \<Rightarrow> nat) \<Rightarrow> nat \<Rightarrow> int \<Rightarrow> int \<Rightarrow> (error + maze \<times> nat) option" where
  "carve fuel rnd k w h =
     (let mz0 = replicate (nat h) (replicate (nat w) WALL);
          (sx, sy) = start_cell w h
      in case setitem2 mz0 sy sx AIR of
           Inl e \<Rightarrow> Some (Inl e)
         | Inr mz1 \<Rightarrow>
             (case carve_loop fuel rnd w h mz1 directions k [(sx, sy)] of
                None \<Rightarrow> None
              | Some (mz2, dirs, k') \<Rightarrow> Some (Inr (set_cell mz2 sx sy HOLE, k'))))"

subsection \<open>Border and widening\<close>

text \<open>The loop over \<^verbatim>\<open>adjacent_directions\<close> at a cell marked \<^verbatim>\<open>__HOLE\<close>: each neighbour
  inside the border that is a wall becomes air, and so does the cell.\<close>

definition widen_step :: "int \<Rightarrow> int \<Rightarrow> int \<Rightarrow> int \<Rightarrow> int \<Rightarrow> int \<times> int \<Rightarrow> maze \<Rightarrow> maze" where
  "widen_step border w h x y d mz =
     (let nx = x + snd d; ny = y + fst d;
          mz1 = (if is_within_bounds (nx - border) (ny - border) (w - border * 2) (h - border * 2)
                    \<and> cell_at mz nx ny = WALL
                 then set_cell mz nx ny AIR else mz)
      in set_cell mz1 x y AIR)"

definition polish_cell :: "int \<Rightarrow> int \<Rightarrow> int \<Rightarrow> nat \<Rightarrow> nat \<Rightarrow> maze \<Rightarrow> maze" where
  "polish_cell border w h y x mz =
     (if int x < border \<or> int x \<ge> w - border then set_cell mz (int x) (int y) WALL
      else if cell_at mz (int x) (int y) = HOLE
           then fold (widen_step border w h (int x) (int y)) adjacent_directions mz
           else mz)"

definition polish_row :: "int \<Rightarrow> int \<Rightarrow> int \<Rightarrow> nat \<Rightarrow> maze \<Rightarrow> maze" where
  "polish_row border w h y mz =
     (if int y < border \<or> int y \<ge> h - border then mz[y := replicate (nat w) WALL]
      else fold (polish_cell border w h y) [0 ..< length (mz ! y)] mz)"

definition polish :: "int \<Rightarrow> int \<Rightarrow> int \<Rightarrow> maze \<Rightarrow> maze" where
  "polish border w h mz = fold (polish_row border w h) [0 ..< length mz] mz"

subsection \<open>Expansion to full size\<close>

definition expand_cell :: "maze \<Rightarrow> nat \<Rightarrow> nat \<Rightarrow> maze \<Rightarrow> maze" where
  "expand_cell mz y x final =
     fold (\<lambda>d f. set_cell f (int x * 2 + snd d) (int y * 2 + fst d) (cell_at mz (int x) (int y)))
       expand_directions final"

definition expand_row :: "maze \<Rightarrow> nat \<Rightarrow> maze \<Rightarrow> maze" where
  "expand_row mz y final = fold (expand_cell mz y) [0 ..< length (mz ! y)] final"

definition expand :: "int \<Rightarrow> int \<Rightarrow> maze \<Rightarrow> maze" where
  "expand w h mz =
     fold (expand_row mz) [0 ..< length mz]
       (replicate (nat (h * 2)) (replicate (nat (w * 2)) WALL))"

text \<open>\<^verbatim>\<open>__create_maze\<close>: both sizes and the border must be even; the maze is carved at half
  size, polished and expanded.\<close>

definition create_maze :: "nat \<Rightarrow> (nat \<Rightarrow> nat) \<Rightarrow> nat \<Rightarrow> level \<Rightarrow> (error + maze \<times> nat) option" where
  "create_maze fuel rnd k m =
     (if size_rows m mod 2 \<noteq> 0 \<or> size_cols m mod 2 \<noteq> 0 then Some (Inl ValueError)
      else if border_size m mod 2 \<noteq> 0 then Some (Inl ValueError)
      else
        let w = half_trunc (width m); h = half_trunc (height m)
        in case carve fuel rnd k w h of
             None \<Rightarrow> None
           | Some (Inl e) \<Rightarrow> Some (Inl e)
           | Some (Inr (mz, k')) \<Rightarrow>
               Some (Inr (expand w h (polish (half_trunc (border_size m)) w h mz), k')))"

subsection \<open>Smoothing\<close>

text \<open>Counting the neighbours of a cell: the pair is \<open>(wall_count, air_count)\<close>.\<close>

definition count_step :: "maze \<Rightarrow> int \<Rightarrow> int \<Rightarrow> int \<Rightarrow> int \<Rightarrow> int \<times> int \<Rightarrow> int \<times> int \<Rightarrow> int \<times> int" where
  "count_step mz w h x y d c =
     (let nx = x + snd d; ny = y + fst d
      in if is_within_bounds nx ny w h then
           (if cell_at mz nx ny = WALL then (fst c + 1, snd c)
            else if cell_at mz nx ny = AIR then (fst c, snd c + 1)
            else c)
         else (fst c + 1, snd c))"

definition count_neighbors :: "maze \<Rightarrow> int \<Rightarrow> int \<Rightarrow> int \<Rightarrow> int \<Rightarrow> int \<times> int" where
  "count_neighbors mz w h x y = fold (count_step mz w h x y) adjacent_directions (0, 0)"

text \<open>The five parameters after the maze.\<close>

record smoothing =
  ammount :: int
  stop_air :: int
  stop_wall :: int
  air_neighbors :: int
  wall_neighbors :: int

text \<open>One cell of one pass: \<open>mz\<close> is the maze the pass reads, the state is the copy it
  writes and the counter of the random source. A number is drawn only when the counts
  and the cell value ask for it.\<close>

definition smooth_cell :: "level \<Rightarrow> smoothing \<Rightarrow> (nat \<Rightarrow> nat) \<Rightarrow> maze \<Rightarrow> nat \<Rightarrow> nat \<Rightarrow> maze \<times> nat \<Rightarrow> maze \<times> nat" where
  "smooth_cell m ps rnd mz y x st =
     (if int x < border_size m \<or> int x \<ge> width m - border_size m then st
      else
        let (wall_count, air_count) = count_neighbors mz (width m) (height m) (int x) (int y);
            element = cell_at mz (int x) (int y);
            (temp, k) = st
        in if wall_count \<ge> wall_neighbors ps \<and> element = AIR then
             (if randint_1_10 rnd k > stop_wall ps
              then (set_cell temp (int x) (int y) WALL, Suc k) else (temp, Suc k))
           else if air_count \<ge> air_neighbors ps \<and> element = WALL then
             (if randint_1_10 rnd k > stop_air ps
              then (set_cell temp (int x) (int y) AIR, Suc k) else (temp, Suc k))
           else st)"

definition smooth_row :: "level \<Rightarrow> smoothing \<Rightarrow> (nat \<Rightarrow> nat) \<Rightarrow> maze \<Rightarrow> nat \<Rightarrow> maze \<times> nat \<Rightarrow> maze \<times> nat" where
  "smooth_row m ps rnd mz y st =
     (if int y < border_size m \<or> int y \<ge> height m - border_size m then st
      else fold (smooth_cell m ps rnd mz y) [0 ..< length (mz ! y)] st)"

definition smooth_pass :: "level \<Rightarrow> smoothing \<Rightarrow> (nat \<Rightarrow> nat) \<Rightarrow> maze \<times> nat \<Rightarrow> maze \<times> nat" where
  "smooth_pass m ps rnd st = fold (smooth_row m ps rnd (fst st)) [0 ..< length (fst st)] st"

definition smooth_maze :: "level \<Rightarrow> (nat \<Rightarrow> nat) \<Rightarrow> maze \<Rightarrow> smoothing \<Rightarrow> nat \<Rightarrow> maze \<times> nat" where
  "smooth_maze m rnd mz ps k = ((smooth_pass m ps rnd) ^^ nat (ammount ps)) (mz, k)"

text \<open>The mazes of \<^verbatim>\<open>generate\<close>: the carved maze smoothed twice is the foreground, a
  third smoothing of a copy of it is the background. The result is
  \<open>(background, foreground)\<close> and the counter.\<close>

definition generate_mazes ::
  "nat \<Rightarrow> (nat \<Rightarrow> nat) \<Rightarrow> nat \<Rightarrow> level \<Rightarrow> (error + (maze \<times> maze) \<times> nat) option" where
  "generate_mazes fuel rnd k m =
     (case create_maze fuel rnd k m of
        None \<Rightarrow> None
      | Some (Inl e) \<Rightarrow> Some (Inl e)
      | Some (Inr (mz0, k0)) \<Rightarrow>
          (let (fg1, k1) = smooth_maze m rnd mz0
                 \<lparr>ammount = 3, stop_air = 6, stop_wall = 10, air_neighbors = 4, wall_neighbors = 0\<rparr> k0;
               (fg2, k2) = smooth_maze m rnd fg1
                 \<lparr>ammount = 5, stop_air = 7, stop_wall = 10, air_neighbors = 3, wall_neighbors = 0\<rparr> k1;
               (bg, k3) = smooth_maze m rnd fg2
                 \<lparr>ammount = 3, stop_air = 0, stop_wall = 4, air_neighbors = 6, wall_neighbors = 2\<rparr> k2
           in Some (Inr ((bg, fg2), k3))))"

subsection \<open>Properties of the spatial state\<close>

text \<open>The hitbox is the collider shrunk by the margin, as the constructor leaves it.\<close>

definition hitbox_inset :: "actor \<Rightarrow> bool" where
  "hitbox_inset a \<longleftrightarrow> hitbox a = inflate (collider a) (-4, -4)"

text \<open>The leading edge of the collider lies on the trailing edge of the tile's collider,
  and the position is the collider's corner.\<close>

definition flush_x :: "vec \<Rightarrow> actor \<Rightarrow> tile \<Rightarrow> bool" where
  "flush_x d a t \<longleftrightarrow>
     fst (pos a) = of_int (r_left (collider a)) \<and>
     (if 0 < fst d then r_right (collider a) = r_left (tile_collider t)
      else r_left (collider a) = r_right (tile_collider t))"

definition flush_y :: "vec \<Rightarrow> actor \<Rightarrow> tile \<Rightarrow> bool" where
  "flush_y d a t \<longleftrightarrow>
     snd (pos a) = of_int (r_top (collider a)) \<and>
     (if 0 < snd d then r_bottom (collider a) = r_top (tile_collider t)
      else r_top (collider a) = r_bottom (tile_collider t))"

text \<open>Two states of a sprite agree on an axis.\<close>

definition same_x :: "actor \<Rightarrow> actor \<Rightarrow> bool" where
  "same_x a b \<longleftrightarrow>
     fst (pos b) = fst (pos a) \<and> r_left (collider b) = r_left (collider a) \<and>
     r_w (collider b) = r_w (collider a) \<and> r_left (hitbox b) = r_left (hitbox a) \<and>
     r_w (hitbox b) = r_w (hitbox a)"

definition same_y :: "actor \<Rightarrow> actor \<Rightarrow> bool" where
  "same_y a b \<longleftrightarrow>
     snd (pos b) = snd (pos a) \<and> r_top (collider b) = r_top (collider a) \<and>
     r_h (collider b) = r_h (collider a) \<and> r_top (hitbox b) = r_top (hitbox a) \<and>
     r_h (hitbox b) = r_h (hitbox a)"

subsection \<open>Properties of mazes\<close>

text \<open>A matrix of \<open>h\<close> rows of \<open>w\<close> cells; the cells of the border margin; the margin is
  all wall.\<close>

definition maze_dims :: "maze \<Rightarrow> int \<Rightarrow> int \<Rightarrow> bool" where
  "maze_dims mz w h \<longleftrightarrow> length mz = nat h \<and> (\<forall>row\<in>set mz. length row = nat w)"

definition in_border :: "int \<Rightarrow> int \<Rightarrow> int \<Rightarrow> int \<Rightarrow> int \<Rightarrow> bool" where
  "in_border b w h x y \<longleftrightarrow> x < b \<or> x \<ge> w - b \<or> y < b \<or> y \<ge> h - b"

definition border_walls :: "int \<Rightarrow> int \<Rightarrow> int \<Rightarrow> maze \<Rightarrow> bool" where
  "border_walls b w h mz \<longleftrightarrow>
     (\<forall>x y. is_within_bounds x y w h \<and> in_border b w h x y \<longrightarrow> cell_at mz x y = WALL)"

text \<open>The cells of the margin that are walls in one maze are walls in the other.\<close>

definition keeps_walls :: "int \<Rightarrow> int \<Rightarrow> int \<Rightarrow> maze \<Rightarrow> maze \<Rightarrow> bool" where
  "keeps_walls b w h mz mz' \<longleftrightarrow>
     maze_dims mz' w h \<and>
     (\<forall>x y. is_within_bounds x y w h \<and> in_border b w h x y \<and> cell_at mz x y = WALL
        \<longrightarrow> cell_at mz' x y = WALL)"

text \<open>Two mazes of the same size agree on the cells of the margin.\<close>

definition same_border :: "int \<Rightarrow> int \<Rightarrow> int \<Rightarrow> maze \<Rightarrow> maze \<Rightarrow> bool" where
  "same_border b w h mz mz' \<longleftrightarrow>
     maze_dims mz' w h \<and>
     (\<forall>x y. is_within_bounds x y w h \<and> in_border b w h x y \<longrightarrow> cell_at mz' x y = cell_at mz x y)"

text \<open>The cells of a \<open>w\<close> by \<open>h\<close> maze that are walls.\<close>

definition wall_cells :: "maze \<Rightarrow> int \<Rightarrow> int \<Rightarrow> (int \<times> int) set" where
  "wall_cells mz w h = {p. is_within_bounds (fst p) (snd p) w h \<and> cell_at mz (fst p) (snd p) = WALL}"

text \<open>The graph of a maze: its nodes are the cells that are not walls, its edges join
  cells that are neighbours along an axis. \<open>reach mz s\<close> holds for the cells that a path
  from \<open>s\<close> arrives at; the maze is connected from \<open>s\<close> when that is every open cell.\<close>

definition open_cell :: "maze \<Rightarrow> int \<times> int \<Rightarrow> bool" where
  "open_cell mz p \<longleftrightarrow>
     0 \<le> snd p \<and> nat (snd p) < length mz \<and> 0 \<le> fst p \<and> nat (fst p) < length (mz ! nat (snd p)) \<and>
     cell_at mz (fst p) (snd p) \<noteq> WALL"

definition adjacent :: "int \<times> int \<Rightarrow> int \<times> int \<Rightarrow> bool" where
  "adjacent p q \<longleftrightarrow> \<bar>fst p - fst q\<bar> + \<bar>snd p - snd q\<bar> = 1"

inductive reach :: "maze \<Rightarrow> int \<times> int \<Rightarrow> int \<times> int \<Rightarrow> bool" for mz :: maze and s :: "int \<times> int" where
  start: "open_cell mz s \<Longrightarrow> reach mz s s"
| step: "reach mz s p \<Longrightarrow> adjacent p q \<Longrightarrow> open_cell mz q \<Longrightarrow> reach mz s q"

definition connected_from :: "maze \<Rightarrow> int \<times> int \<Rightarrow> bool" where
  "connected_from mz s \<longleftrightarrow> (\<forall>p. open_cell mz p \<longrightarrow> reach mz s p)"

text \<open>No open cell lies in the border margin; and the three facts that the border and
  widening pass keeps: the size, the open cells clear of the margin, and the paths from
  \<open>s\<close>.\<close>

definition inner_open :: "int \<Rightarrow> int \<Rightarrow> int \<Rightarrow> maze \<Rightarrow> bool" where
  "inner_open b w h mz \<longleftrightarrow> (\<forall>p. open_cell mz p \<longrightarrow> \<not> in_border b w h (fst p) (snd p))"

definition inner_connected :: "int \<Rightarrow> int \<Rightarrow> int \<Rightarrow> int \<times> int \<Rightarrow> maze \<Rightarrow> bool" where
  "inner_connected b w h s mz \<longleftrightarrow>
     maze_dims mz w h \<and> inner_open b w h mz \<and> connected_from mz s"

definition grows :: "maze \<Rightarrow> maze \<Rightarrow> bool" where
  "grows mz mz' \<longleftrightarrow> (\<forall>q. open_cell mz q \<longrightarrow> open_cell mz' q)"

subsection \<open>Concrete maps\<close>

text \<open>Two asset tables of 16 by 16 images: one with the tile types only, one that also
  has the key \<^verbatim>\<open>"None"\<close> (the loader files images lying directly in a directory under
  that key).\<close>

definition tiles_only :: "string \<rightharpoonup> image list" where
  "tiles_only = map_of [(''wall'', [(16, 16)]), (''wall_top'', [(16, 16)]), (''stone'', [(16, 16)]),
                        (''stone_floor'', [(16, 16)]), (''dirt_floor'', [(16, 16)])]"

definition tiles_and_none :: "string \<rightharpoonup> image list" where
  "tiles_and_none = tiles_only(''None'' \<mapsto> [(16, 16)])"

definition blank_map :: level where
  "blank_map = generate_setup (Map_init tiles_only 16)"

definition blank_map_none :: level where
  "blank_map_none = generate_setup (Map_init tiles_and_none 16)"

text \<open>Two \<^verbatim>\<open>wall_top\<close> tiles placed on the blank map, at \<open>(1, 0)\<close> and at \<open>(0, 1)\<close>.\<close>

definition two_tile_map :: level where
  "two_tile_map =
     snd (place_tile
            (snd (place_tile blank_map (1, 0) \<lparr>tc_type = ''wall_top'', variation = 0\<rparr>
                    Foreground True True 0))
            (0, 1) \<lparr>tc_type = ''wall_top'', variation = 0\<rparr> Foreground True True 0)"

text \<open>Two \<^verbatim>\<open>wall_top\<close> tiles at \<open>(7, 6)\<close> and \<open>(6, 7)\<close>, and sprites with 16 by 16 images.\<close>

definition corner_map :: level where
  "corner_map =
     snd (place_tile
            (snd (place_tile blank_map (7, 6) \<lparr>tc_type = ''wall_top'', variation = 0\<rparr>
                    Foreground True True 0))
            (6, 7) \<lparr>tc_type = ''wall_top'', variation = 0\<rparr> Foreground True True 0)"

definition east_tile :: tile where
  "east_tile = Tile 0 (112, 96) (16, 16) (0, -8) (0, 4) True True"

definition south_tile :: tile where
  "south_tile = Tile 1 (96, 112) (16, 16) (0, -8) (0, 4) True True"

definition hero :: actor where
  "hero = MovingSprite (90, 100) (16, 16)"

definition hero2 :: actor where
  "hero2 = MovingSprite (94, 100) (16, 16)"

definition foe :: actor where
  "foe = MovingSprite (110, 100) (16, 16)"

text \<open>States of a walk, and the sprites the walks end in.\<close>

definition walk_east :: walk where
  "walk_east = \<lparr>sprite = hero, distance_to_walk = (1000, 0), collided = False\<rparr>"

definition walk_south :: walk where
  "walk_south = \<lparr>sprite = hero2, distance_to_walk = (0, 1000), collided = False\<rparr>"

definition walk_hit :: walk where
  "walk_hit = \<lparr>sprite = hero, distance_to_walk = (30, 0), collided = False\<rparr>"

definition hero_east :: actor where
  "hero_east = \<lparr>pos = (96, 100), collider = \<lparr>r_left = 96, r_top = 100, r_w = 16, r_h = 16\<rparr>,
                 hitbox = \<lparr>r_left = 102, r_top = 102, r_w = 12, r_h = 12\<rparr>, vulnerable = True\<rparr>"

definition hero_south :: actor where
  "hero_south = \<lparr>pos = (94, 104), collider = \<lparr>r_left = 94, r_top = 104, r_w = 16, r_h = 16\<rparr>,
                  hitbox = \<lparr>r_left = 96, r_top = 112, r_w = 12, r_h = 12\<rparr>, vulnerable = True\<rparr>"

definition hero_hit :: actor where
  "hero_hit = \<lparr>pos = (102, 100), collider = \<lparr>r_left = 102, r_top = 100, r_w = 16, r_h = 16\<rparr>,
                hitbox = \<lparr>r_left = 102, r_top = 102, r_w = 12, r_h = 12\<rparr>, vulnerable = True\<rparr>"

definition hero_free :: actor where
  "hero_free = \<lparr>pos = (120, 100), collider = \<lparr>r_left = 120, r_top = 100, r_w = 16, r_h = 16\<rparr>,
                 hitbox = \<lparr>r_left = 120, r_top = 102, r_w = 12, r_h = 12\<rparr>, vulnerable = True\<rparr>"

definition foe_south :: actor where
  "foe_south = MovingSprite (94, 120) (16, 16)"

definition walk_hit_south :: walk where
  "walk_hit_south = \<lparr>sprite = hero2, distance_to_walk = (0, 30), collided = False\<rparr>"

definition hero_hit_south :: actor where
  "hero_hit_south = \<lparr>pos = (94, 112), collider = \<lparr>r_left = 94, r_top = 112, r_w = 16, r_h = 16\<rparr>,
                hitbox = \<lparr>r_left = 96, r_top = 112, r_w = 12, r_h = 12\<rparr>, vulnerable = True\<rparr>"

definition tile_a :: tile where
  "tile_a = Tile 0 (16, 0) (16, 16) (0, -8) (0, 4) True True"

definition tile_b :: tile where
  "tile_b = Tile 1 (0, 16) (16, 16) (0, -8) (0, 4) True True"

text \<open>A walk of 50 pixels along \<open>(3/5, 4/5)\<close> that starts beside an entity, and the sprite
  after the first step east and after the first step south of that walk.\<close>

definition foe_near :: actor where
  "foe_near = MovingSprite (100, 104) (16, 16)"

definition walk_diagonal :: walk where
  "walk_diagonal = \<lparr>sprite = hero, distance_to_walk = (30, 40), collided = False\<rparr>"

definition hero_diagonal_east :: actor where
  "hero_diagonal_east =
     \<lparr>pos = (486 / 5, 100), collider = \<lparr>r_left = 97, r_top = 100, r_w = 16, r_h = 16\<rparr>,
      hitbox = \<lparr>r_left = 97, r_top = 102, r_w = 12, r_h = 12\<rparr>, vulnerable = True\<rparr>"

definition hero_diagonal_south :: actor where
  "hero_diagonal_south =
     \<lparr>pos = (90, 548 / 5), collider = \<lparr>r_left = 90, r_top = 110, r_w = 16, r_h = 16\<rparr>,
      hitbox = \<lparr>r_left = 92, r_top = 110, r_w = 12, r_h = 12\<rparr>, vulnerable = True\<rparr>"

subsection \<open>Concrete mazes\<close>

text \<open>A full-size grid of walls with one open cell west, and one south-west, of the cell
  \<open>(10, 10)\<close>; and one with five open cells around it (west, north, south, east and
  north-east). \<open>background_pass\<close> is the parameter set of the third smoothing in
  \<^verbatim>\<open>generate\<close>.\<close>

definition walls62 :: maze where
  "walls62 = replicate 62 (replicate 62 WALL)"

definition west_open :: maze where
  "west_open = set_cell walls62 9 10 AIR"

definition south_west_open :: maze where
  "south_west_open = set_cell walls62 9 11 AIR"

definition five_open :: maze where
  "five_open =
     set_cell (set_cell (set_cell (set_cell (set_cell walls62 9 10 AIR) 10 9 AIR) 10 11 AIR)
                 11 10 AIR) 11 9 AIR"

definition background_pass :: smoothing where
  "background_pass =
     \<lparr>ammount = 3, stop_air = 0, stop_wall = 4, air_neighbors = 6, wall_neighbors = 2\<rparr>"

text \<open>A map of 8 columns and 24 rows, and the sequence of draws \<open>0, 2, 4, \<dots>\<close>.\<close>

definition tall_map :: level where
  "tall_map = (Map_init tiles_only 16)\<lparr>size_rows := 24, size_cols := 8\<rparr>"

definition even_draws :: "nat \<Rightarrow> nat" where
  "even_draws k = 2 * k"

text \<open>The mazes that the generator builds for \<open>tall_map\<close> from \<open>even_draws\<close>: the carved
  maze at half size, the same after the border and widening pass, the expanded maze, and
  foreground and background after smoothing.\<close>

definition tall_carved :: maze where
  "tall_carved =
     [[HOLE, AIR, AIR, WALL],
      [WALL, WALL, AIR, WALL],
      [AIR, AIR, AIR, WALL],
      [AIR, WALL, WALL, WALL],
      [AIR, AIR, AIR, WALL],
      [AIR, WALL, AIR, WALL],
      [AIR, WALL, HOLE, WALL],
      [AIR, WALL, WALL, WALL],
      [AIR, AIR, AIR, WALL],
      [WALL, WALL, AIR, WALL],
      [HOLE, AIR, AIR, WALL],
      [WALL, WALL, WALL, WALL]]"

definition tall_polished :: maze where
  "tall_polished =
     [[WALL, WALL, WALL, WALL],
      [WALL, WALL, AIR, WALL],
      [WALL, AIR, AIR, WALL],
      [WALL, WALL, WALL, WALL],
      [WALL, AIR, AIR, WALL],
      [WALL, AIR, AIR, WALL],
      [WALL, AIR, AIR, WALL],
      [WALL, WALL, AIR, WALL],
      [WALL, AIR, AIR, WALL],
      [WALL, WALL, AIR, WALL],
      [WALL, AIR, AIR, WALL],
      [WALL, WALL, WALL, WALL]]"

definition tall_maze :: maze where
  "tall_maze =
     [[WALL, WALL, WALL, WALL, WALL, WALL, WALL, WALL],
      [WALL, WALL, WALL, WALL, WALL, WALL, WALL, WALL],
      [WALL, WALL, WALL, WALL, AIR, AIR, WALL, WALL],
      [WALL, WALL, WALL, WALL, AIR, AIR, WALL, WALL],
      [WALL, WALL, AIR, AIR, AIR, AIR, WALL, WALL],
      [WALL, WALL, AIR, AIR, AIR, AIR, WALL, WALL],
      [WALL, WALL, WALL, WALL, WALL, WALL, WALL, WALL],
      [WALL, WALL, WALL, WALL, WALL, WALL, WALL, WALL],
      [WALL, WALL, AIR, AIR, AIR, AIR, WALL, WALL],
      [WALL, WALL, AIR, AIR, AIR, AIR, WALL, WALL],
      [WALL, WALL, AIR, AIR, AIR, AIR, WALL, WALL],
      [WALL, WALL, AIR, AIR, AIR, AIR, WALL, WALL],
      [WALL, WALL, AIR, AIR, AIR, AIR, WALL, WALL],
      [WALL, WALL, AIR, AIR, AIR, AIR, WALL, WALL],
      [WALL, WALL, WALL, WALL, AIR, AIR, WALL, WALL],
      [WALL, WALL, WALL, WALL, AIR, AIR, WALL, WALL],
      [WALL, WALL, AIR, AIR, AIR, AIR, WALL, WALL],
      [WALL, WALL, AIR, AIR, AIR, AIR, WALL, WALL],
      [WALL, WALL, WALL, WALL, AIR, AIR, WALL, WALL],
      [WALL, WALL, WALL, WALL, AIR, AIR, WALL, WALL],
      [WALL, WALL, AIR, AIR, AIR, AIR, WALL, WALL],
      [WALL, WALL, AIR, AIR, AIR, AIR, WALL, WALL],
      [WALL, WALL, WALL, WALL, WALL, WALL, WALL, WALL],
      [WALL, WALL, WALL, WALL, WALL, WALL, WALL, WALL]]"

definition tall_foreground :: maze where
  "tall_foreground =
     [[WALL, WALL, WALL, WALL, WALL, WALL, WALL, WALL],
      [WALL, WALL, WALL, WALL, WALL, WALL, WALL, WALL],
      [WALL, WALL, WALL, WALL, AIR, AIR, WALL, WALL],
      [WALL, WALL, WALL, WALL, AIR, AIR, WALL, WALL],
      [WALL, WALL, AIR, AIR, AIR, AIR, WALL, WALL],
      [WALL, WALL, AIR, AIR, AIR, AIR, WALL, WALL],
      [WALL, WALL, WALL, AIR, AIR, WALL, WALL, WALL],
      [WALL, WALL, WALL, WALL, AIR, WALL, WALL, WALL],
      [WALL, WALL, AIR, AIR, AIR, AIR, WALL, WALL],
      [WALL, WALL, AIR, AIR, AIR, AIR, WALL, WALL],
      [WALL, WALL, AIR, AIR, AIR, AIR, WALL, WALL],
      [WALL, WALL, AIR, AIR, AIR, AIR, WALL, WALL],
      [WALL, WALL, AIR, AIR, AIR, AIR, WALL, WALL],
      [WALL, WALL, AIR, AIR, AIR, AIR, WALL, WALL],
      [WALL, WALL, AIR, AIR, AIR, AIR, WALL, WALL],
      [WALL, WALL, WALL, AIR, AIR, AIR, WALL, WALL],
      [WALL, WALL, AIR, AIR, AIR, AIR, WALL, WALL],
      [WALL, WALL, AIR, AIR, AIR, AIR, WALL, WALL],
      [WALL, WALL, AIR, AIR, AIR, AIR, WALL, WALL],
      [WALL, WALL, AIR, AIR, AIR, AIR, WALL, WALL],
      [WALL, WALL, AIR, AIR, AIR, AIR, WALL, WALL],
      [WALL, WALL, AIR, AIR, AIR, AIR, WALL, WALL],
      [WALL, WALL, WALL, WALL, WALL, WALL, WALL, WALL],
      [WALL, WALL, WALL, WALL, WALL, WALL, WALL, WALL]]"

definition tall_background :: maze where
  "tall_background =
     [[WALL, WALL, WALL, WALL, WALL, WALL, WALL, WALL],
      [WALL, WALL, WALL, WALL, WALL, WALL, WALL, WALL],
      [WALL, WALL, WALL, WALL, WALL, WALL, WALL, WALL],
      [WALL, WALL, WALL, WALL, WALL, WALL, WALL, WALL],
      [WALL, WALL, WALL, WALL, WALL, WALL, WALL, WALL],
      [WALL, WALL, WALL, WALL, AIR, WALL, WALL, WALL],
      [WALL, WALL, WALL, AIR, WALL, WALL, WALL, WALL],
      [WALL, WALL, WALL, WALL, WALL, WALL, WALL, WALL],
      [WALL, WALL, WALL, WALL, WALL, WALL, WALL, WALL],
      [WALL, WALL, WALL, WALL, WALL, WALL, WALL, WALL],
      [WALL, WALL, WALL, WALL, WALL, WALL, WALL, WALL],
      [WALL, WALL, WALL, AIR, AIR, WALL, WALL, WALL],
      [WALL, WALL, WALL, WALL, WALL, WALL, WALL, WALL],
      [WALL, WALL, WALL, WALL, WALL, WALL, WALL, WALL],
      [WALL, WALL, WALL, WALL, AIR, WALL, WALL, WALL],
      [WALL, WALL, WALL, WALL, WALL, WALL, WALL, WALL],
      [WALL, WALL, AIR, WALL, WALL, WALL, WALL, WALL],
      [WALL, WALL, WALL, WALL, WALL, WALL, WALL, WALL],
      [WALL, WALL, WALL, WALL, AIR, WALL, WALL, WALL],
      [WALL, WALL, WALL, WALL, AIR, WALL, WALL, WALL],
      [WALL, WALL, WALL, WALL, WALL, WALL, WALL, WALL],
      [WALL, WALL, WALL, WALL, WALL, WALL, WALL, WALL],
      [WALL, WALL, WALL, WALL, WALL, WALL, WALL, WALL],
      [WALL, WALL, WALL, WALL, WALL, WALL, WALL, WALL]]"

text \<open>A map of 14 columns and 14 rows, and the mazes that the generator builds for it
  from \<open>even_draws\<close>: the carved maze at half size, the same after the border and widening
  pass, and the expanded maze.\<close>

definition small_map :: level where
  "small_map = (Map_init tiles_only 16)\<lparr>size_rows := 14, size_cols := 14\<rparr>"

definition small_carved :: maze where
  "small_carved =
     [[WALL, WALL, WALL, WALL, WALL, WALL, WALL],
      [WALL, AIR, AIR, AIR, WALL, HOLE, WALL],
      [WALL, AIR, WALL, AIR, WALL, AIR, WALL],
      [WALL, AIR, WALL, HOLE, WALL, AIR, WALL],
      [WALL, AIR, WALL, WALL, WALL, AIR, WALL],
      [WALL, AIR, AIR, AIR, AIR, AIR, WALL],
      [WALL, WALL, WALL, WALL, WALL, WALL, WALL]]"

definition small_polished :: maze where
  "small_polished =
     [[WALL, WALL, WALL, WALL, WALL, WALL, WALL],
      [WALL, AIR, AIR, AIR, AIR, AIR, WALL],
      [WALL, AIR, AIR, AIR, AIR, AIR, WALL],
      [WALL, AIR, AIR, AIR, AIR, AIR, WALL],
      [WALL, AIR, WALL, AIR, AIR, AIR, WALL],
      [WALL, AIR, AIR, AIR, AIR, AIR, WALL],
      [WALL, WALL, WALL, WALL, WALL, WALL, WALL]]"

definition small_maze :: maze where
  "small_maze =
     [[WALL, WALL, WALL, WALL, WALL, WALL, WALL, WALL, WALL, WALL, WALL, WALL, WALL, WALL],
      [WALL, WALL, WALL, WALL, WALL, WALL, WALL, WALL, WALL, WALL, WALL, WALL, WALL, WALL],
      [WALL, WALL, AIR, AIR, AIR, AIR, AIR, AIR, AIR, AIR, AIR, AIR, WALL, WALL],
      [WALL, WALL, AIR, AIR, AIR, AIR, AIR, AIR, AIR, AIR, AIR, AIR, WALL, WALL],
      [WALL, WALL, AIR, AIR, AIR, AIR, AIR, AIR, AIR, AIR, AIR, AIR, WALL, WALL],
      [WALL, WALL, AIR, AIR, AIR, AIR, AIR, AIR, AIR, AIR, AIR, AIR, WALL, WALL],
      [WALL, WALL, AIR, AIR, AIR, AIR, AIR, AIR, AIR, AIR, AIR, AIR, WALL, WALL],
      [WALL, WALL, AIR, AIR, AIR, AIR, AIR, AIR, AIR, AIR, AIR, AIR, WALL, WALL],
      [WALL, WALL, AIR, AIR, WALL, WALL, AIR, AIR, AIR, AIR, AIR, AIR, WALL, WALL],
      [WALL, WALL, AIR, AIR, WALL, WALL, AIR, AIR, AIR, AIR, AIR, AIR, WALL, WALL],
      [WALL, WALL, AIR, AIR, AIR, AIR, AIR, AIR, AIR, AIR, AIR, AIR, WALL, WALL],
      [WALL, WALL, AIR, AIR, AIR, AIR, AIR, AIR, AIR, AIR, AIR, AIR, WALL, WALL],
      [WALL, WALL, WALL, WALL, WALL, WALL, WALL, WALL, WALL, WALL, WALL, WALL, WALL, WALL],
      [WALL, WALL, WALL, WALL, WALL, WALL, WALL, WALL, WALL, WALL, WALL, WALL, WALL, WALL]]"

section \<open>Out-of-bounds positions\<close>

lemma blank_simps:
  "size_cols blank_map = 62" "size_rows blank_map = 62" "tile_size blank_map = 16"
  "matrix_foreground blank_map = replicate 62 (replicate 62 None)"
  "matrix_background blank_map = replicate 62 (replicate 62 None)"
  "graphics blank_map = tiles_only" "next_id blank_map = 0"
  "foreground_tiles blank_map = {}" "background_tiles blank_map = {}"
  by (simp_all add: blank_map_def generate_setup_def Map_init_def clear_def width_def
      height_def Let_def)

lemma blank_none_simps:
  "size_cols blank_map_none = 62" "size_rows blank_map_none = 62" "tile_size blank_map_none = 16"
  "matrix_foreground blank_map_none = replicate 62 (replicate 62 None)"
  "matrix_background blank_map_none = replicate 62 (replicate 62 None)"
  "graphics blank_map_none = tiles_and_none" "next_id blank_map_none = 0"
  "foreground_tiles blank_map_none = {}" "background_tiles blank_map_none = {}"
  by (simp_all add: blank_map_none_def generate_setup_def Map_init_def clear_def width_def
      height_def Let_def)


text \<open>
  C8. For a position outside \<open>[0,width) \<times> [0,height)\<close> each of \<open>get_tile\<close>,
  \<open>get_tiles_square\<close> (on its centre), \<open>place_tile\<close> and \<open>remove_tile\<close> raises
  IndexError and leaves the map as it was; the position is not clamped.
\<close>

theorem out_of_bounds_raises:
  "\<not> is_within_bounds (fst cell) (snd cell) (width m) (height m) \<Longrightarrow>
     get_tile m cell p = Inl IndexError \<and>
     get_tiles_square m cell radius p = Inl IndexError \<and>
     place_tile m cell tile_code p vis coll rnd = (Some IndexError, m) \<and>
     remove_tile m cell p = (Some IndexError, m)"
  by (simp add: get_tile_def get_tiles_square_def place_tile_def remove_tile_def)

theorem out_of_bounds_raises_witness:
  "\<not> is_within_bounds (fst (62, 0)) (snd (62, 0 :: int)) (width blank_map) (height blank_map) \<and>
   get_tile blank_map (62, 0) Foreground = Inl IndexError \<and>
   get_tiles_square blank_map (62, 0) (1, 1) Foreground = Inl IndexError \<and>
   place_tile blank_map (62, 0) \<lparr>tc_type = ''wall'', variation = 0\<rparr> Foreground True True 0
     = (Some IndexError, blank_map) \<and>
   remove_tile blank_map (62, 0) Foreground = (Some IndexError, blank_map)"
  using out_of_bounds_raises [of "(62, 0)" blank_map Foreground "(1, 1)"
      "\<lparr>tc_type = ''wall'', variation = 0\<rparr>" True True 0]
  by (simp add: is_within_bounds_def blank_simps width_def height_def)

section \<open>Placing and removing tiles\<close>

lemma place_first:
  "place_tile blank_map (1, 0) \<lparr>tc_type = ''wall_top'', variation = 0\<rparr> Foreground True True 0
     = (None, blank_map\<lparr>matrix_foreground :=
                 (replicate 62 (replicate 62 None))[0 := (replicate 62 None)[1 := Some tile_a]],
               foreground_tiles := {tile_a}, next_id := 1\<rparr>)"
  by (simp add: place_tile_def blank_simps is_within_bounds_def tiles_only_def Let_def dom_def
      register_tile_def setitem2_def getitem_def setitem_def py_index_def tile_a_def
      tile_inflate_def tile_move_def width_def height_def)

lemma two_tile_map_eq:
  "two_tile_map =
     blank_map\<lparr>matrix_foreground :=
                 (replicate 62 (replicate 62 None))
                   [0 := (replicate 62 None)[1 := Some tile_a],
                    1 := (replicate 62 None)[0 := Some tile_b]],
               foreground_tiles := {tile_b, tile_a}, next_id := 2\<rparr>"
  unfolding two_tile_map_def place_first
  by (simp add: place_tile_def blank_simps is_within_bounds_def tiles_only_def Let_def dom_def
      register_tile_def setitem2_def getitem_def setitem_def py_index_def tile_a_def tile_b_def
      tile_inflate_def tile_move_def width_def height_def)

text \<open>
  C3. After \<open>remove_tile p plane\<close> a following \<open>get_tile p plane\<close> should find no
  tile at \<open>p\<close>, and the tile should have left the plane's set. On the map with tiles at
  \<open>(1, 0)\<close> and \<open>(0, 1)\<close> the code does otherwise: \<open>remove_tile (1, 0)\<close> takes the tile
  of \<open>(1, 0)\<close> out of the set but leaves it in its cell, and empties the cell \<open>(0, 1)\<close>,
  whose tile stays in the set. The cell that \<open>get_tile\<close> reads is row \<open>y\<close>, column
  \<open>x\<close>; the cell that \<open>remove_tile\<close> clears is row \<open>x\<close>, column \<open>y\<close>.
\<close>

theorem remove_tile_clears_transposed_cell:
  "get_tile two_tile_map (1, 0) Foreground = Inr (Some tile_a) \<and>
   get_tile two_tile_map (0, 1) Foreground = Inr (Some tile_b) \<and>
   (case remove_tile two_tile_map (1, 0) Foreground of
      (e, m') \<Rightarrow>
        e = None \<and>
        get_tile m' (1, 0) Foreground = Inr (Some tile_a) \<and> tile_a \<notin> foreground_tiles m' \<and>
        get_tile m' (0, 1) Foreground = Inr None \<and> tile_b \<in> foreground_tiles m')"
  unfolding two_tile_map_eq
  by (simp add: remove_tile_def get_tile_def blank_simps is_within_bounds_def width_def height_def
      matrix_def getitem2_def getitem_def py_index_def setitem2_def setitem_def kill_def
      tile_a_def tile_b_def Tile_def)

text \<open>
  C4. Placing a tile code whose type is not a key of the asset table should leave the
  cell empty without an error, as placing the code \<^verbatim>\<open>"None"\<close> does. The code tests for
  \<^verbatim>\<open>"None"\<close> before it substitutes, so the substituted code is looked up in the table:
  without the key \<^verbatim>\<open>"None"\<close> the call raises KeyError, with it a tile is created from
  the images filed under \<^verbatim>\<open>"None"\<close>.
\<close>

theorem place_tile_unknown_type:
  "place_tile blank_map (0, 0) \<lparr>tc_type = ''lava'', variation = 0\<rparr> Foreground True False 0
     = (Some KeyError, blank_map) \<and>
   place_tile blank_map (0, 0) \<lparr>tc_type = ''None'', variation = 0\<rparr> Foreground True False 0
     = (None, blank_map) \<and>
   (case place_tile blank_map_none (0, 0) \<lparr>tc_type = ''lava'', variation = 0\<rparr>
           Foreground True False 0 of
      (e, m') \<Rightarrow>
        e = None \<and>
        get_tile m' (0, 0) Foreground = Inr (Some (Tile 0 (0, 0) (16, 16) (0, 0) (0, 0) True False)))"
  by (simp add: place_tile_def blank_simps blank_none_simps is_within_bounds_def tiles_only_def
      tiles_and_none_def Let_def dom_def register_tile_def setitem2_def getitem_def setitem_def
      py_index_def tile_inflate_def tile_move_def width_def height_def get_tile_def matrix_def
      getitem2_def)

section \<open>The movement loop\<close>

lemma magnitude_zero_iff: "magnitude v = 0 \<longleftrightarrow> v = (0, 0)"
proof -
  have "fst v * fst v + snd v * snd v = 0 \<longleftrightarrow> fst v = 0 \<and> snd v = 0"
    by simp
  then show ?thesis
    by (cases v) (simp add: magnitude_def)
qed

lemma colision_horizontal_frame:
  "colision_horizontal d ts (a, c) = (a', c') \<Longrightarrow>
     hitbox a' = hitbox a \<and> vulnerable a' = vulnerable a \<and> snd (pos a') = snd (pos a) \<and>
     r_top (collider a') = r_top (collider a) \<and> r_w (collider a') = r_w (collider a) \<and>
     r_h (collider a') = r_h (collider a) \<and> (c \<longrightarrow> c')"
proof (induction ts arbitrary: a c)
  case Nil
  then show ?case by simp
next
  case (Cons t ts)
  show ?case
    using Cons.prems Cons.IH
    by (fastforce simp: Let_def set_right_def split: if_splits)
qed

lemma colision_horizontal_miss:
  "colision_horizontal d ts (a, False) = (a', False) \<Longrightarrow> a' = a"
proof (induction ts arbitrary: a)
  case Nil
  then show ?case by simp
next
  case (Cons t ts)
  show ?case
    using Cons.prems Cons.IH colision_horizontal_frame
    by (fastforce simp: Let_def split: if_splits)
qed


lemma colision_vertical_frame:
  "colision_vertical d ts (a, c) = (a', c') \<Longrightarrow>
     hitbox a' = hitbox a \<and> vulnerable a' = vulnerable a \<and> fst (pos a') = fst (pos a) \<and>
     r_left (collider a') = r_left (collider a) \<and> r_w (collider a') = r_w (collider a) \<and>
     r_h (collider a') = r_h (collider a) \<and> (c \<longrightarrow> c')"
proof (induction ts arbitrary: a c)
  case Nil
  then show ?case by simp
next
  case (Cons t ts)
  show ?case
    using Cons.prems Cons.IH
    by (fastforce simp: Let_def set_bottom_def split: if_splits)
qed

lemma colision_vertical_miss:
  "colision_vertical d ts (a, False) = (a', False) \<Longrightarrow> a' = a"
proof (induction ts arbitrary: a)
  case Nil
  then show ?case by simp
next
  case (Cons t ts)
  show ?case
    using Cons.prems Cons.IH colision_vertical_frame
    by (fastforce simp: Let_def split: if_splits)
qed

lemma colision_horizontal_flush:
  "colision_horizontal d ts (a, c) = (a', True) \<Longrightarrow>
   (c \<longrightarrow> (\<exists>t\<in>S. flush_x d a t)) \<Longrightarrow> set ts \<subseteq> S \<Longrightarrow> \<exists>t\<in>S. flush_x d a' t"
proof (induction ts arbitrary: a c)
  case Nil
  then show ?case by simp
next
  case (Cons t ts)
  let ?next = "(if colliderect (collider a) (tile_collider t) then
          (if fst d > 0 then
             (let cl = set_right (collider a) (r_left (tile_collider t))
              in (a\<lparr>collider := cl, pos := (of_int (r_left cl), snd (pos a))\<rparr>, True))
           else if fst d < 0 then
             (let cl = (collider a)\<lparr>r_left := r_right (tile_collider t)\<rparr>
              in (a\<lparr>collider := cl, pos := (of_int (r_left cl), snd (pos a))\<rparr>, True))
           else (a, c))
        else (a, c))"
  have run: "colision_horizontal d ts (fst ?next, snd ?next) = (a', True)"
    using Cons.prems(1) by simp
  have inv: "snd ?next \<longrightarrow> (\<exists>u\<in>S. flush_x d (fst ?next) u)"
    using Cons.prems(2,3)
    by (auto simp: flush_x_def Let_def set_right_def r_right_def)
  from Cons.IH [OF run inv] Cons.prems(3) show ?case by simp
qed


lemma colision_vertical_flush:
  "colision_vertical d ts (a, c) = (a', True) \<Longrightarrow>
   (c \<longrightarrow> (\<exists>t\<in>S. flush_y d a t)) \<Longrightarrow> set ts \<subseteq> S \<Longrightarrow> \<exists>t\<in>S. flush_y d a' t"
proof (induction ts arbitrary: a c)
  case Nil
  then show ?case by simp
next
  case (Cons t ts)
  let ?next = "(if collidable t \<and> colliderect (collider a) (tile_collider t) then
          (if snd d > 0 then
             (let cl = set_bottom (collider a) (r_top (tile_collider t))
              in (a\<lparr>collider := cl, pos := (fst (pos a), of_int (r_top cl))\<rparr>, True))
           else if snd d < 0 then
             (let cl = (collider a)\<lparr>r_top := r_bottom (tile_collider t)\<rparr>
              in (a\<lparr>collider := cl, pos := (fst (pos a), of_int (r_top cl))\<rparr>, True))
           else (a, c))
        else (a, c))"
  have run: "colision_vertical d ts (fst ?next, snd ?next) = (a', True)"
    using Cons.prems(1) by simp
  have inv: "snd ?next \<longrightarrow> (\<exists>u\<in>S. flush_y d (fst ?next) u)"
    using Cons.prems(2,3)
    by (auto simp: flush_y_def Let_def set_bottom_def r_bottom_def)
  from Cons.IH [OF run inv] Cons.prems(3) show ?case by simp
qed

lemma flush_x_apart:
  "flush_x d a t \<Longrightarrow> 0 \<le> r_w (collider a) \<Longrightarrow> 0 \<le> r_w (tile_collider t) \<Longrightarrow>
     \<not> colliderect (collider a) (tile_collider t)"
  by (auto simp: flush_x_def colliderect_def r_right_def split: if_splits)

lemma flush_y_apart:
  "flush_y d a t \<Longrightarrow> 0 \<le> r_h (collider a) \<Longrightarrow> 0 \<le> r_h (tile_collider t) \<Longrightarrow>
     \<not> colliderect (collider a) (tile_collider t)"
  by (auto simp: flush_y_def colliderect_def r_bottom_def split: if_splits)

lemma flush_x_same: "flush_x d a t \<Longrightarrow> same_x a b \<Longrightarrow> flush_x d b t"
  by (auto simp: flush_x_def same_x_def r_right_def split: if_splits)

lemma flush_y_same: "flush_y d a t \<Longrightarrow> same_y a b \<Longrightarrow> flush_y d b t"
  by (auto simp: flush_y_def same_y_def r_bottom_def split: if_splits)

lemma horizontal_frame:
  assumes "horizontal m es d step w = Inr w'"
  shows "same_y (sprite w) (sprite w') \<and> snd (distance_to_walk w') = snd (distance_to_walk w) \<and>
         (collided w \<longrightarrow> collided w')"
proof (cases "fst (distance_to_walk w) = 0")
  case True
  with assms show ?thesis by (simp add: horizontal_def same_y_def)
next
  case False
  let ?w1 = "step_x d step w"
  from assms False obtain ts a c where
    ts: "get_obstacles m (sprite ?w1) = Inr ts" and
    ac: "colision_horizontal d ts (sprite ?w1, False) = (a, c)" and
    w': "w' = (if c \<or> check_hit a es
               then ?w1\<lparr>sprite := a, collided := True, distance_to_walk := (0, snd (distance_to_walk ?w1))\<rparr>
               else ?w1\<lparr>sprite := a\<rparr>)"
    by (auto simp: horizontal_def colision_def Let_def split: sum.splits if_splits prod.splits)
  have s1: "same_y (sprite w) (sprite ?w1)" "snd (distance_to_walk ?w1) = snd (distance_to_walk w)"
    "collided ?w1 = collided w"
    by (simp_all add: step_x_def same_y_def Let_def split: prod.splits)
  from colision_horizontal_frame [OF ac] have "same_y (sprite ?w1) a"
    by (simp add: same_y_def)
  with s1 w' show ?thesis
    by (auto simp: same_y_def)
qed

lemma vertical_frame:
  assumes "vertical m es d step w = Inr w'"
  shows "same_x (sprite w) (sprite w') \<and> fst (distance_to_walk w') = fst (distance_to_walk w) \<and>
         (collided w \<longrightarrow> collided w')"
proof (cases "snd (distance_to_walk w) = 0")
  case True
  with assms show ?thesis by (simp add: vertical_def same_x_def)
next
  case False
  let ?w1 = "step_y d step w"
  from assms False obtain ts a c where
    ts: "get_obstacles m (sprite ?w1) = Inr ts" and
    ac: "colision_vertical d ts (sprite ?w1, False) = (a, c)" and
    w': "w' = (if c \<or> check_hit a es
               then ?w1\<lparr>sprite := a, collided := True, distance_to_walk := (fst (distance_to_walk ?w1), 0)\<rparr>
               else ?w1\<lparr>sprite := a\<rparr>)"
    by (auto simp: vertical_def colision_def Let_def split: sum.splits if_splits prod.splits)
  have s1: "same_x (sprite w) (sprite ?w1)" "fst (distance_to_walk ?w1) = fst (distance_to_walk w)"
    "collided ?w1 = collided w"
    by (simp_all add: step_y_def same_x_def Let_def split: prod.splits)
  from colision_vertical_frame [OF ac] have "same_x (sprite ?w1) a"
    by (simp add: same_x_def)
  with s1 w' show ?thesis
    by (auto simp: same_x_def)
qed

lemma same_x_trans: "same_x a b \<Longrightarrow> same_x b c \<Longrightarrow> same_x a c"
  by (simp add: same_x_def)

lemma same_y_trans: "same_y a b \<Longrightarrow> same_y b c \<Longrightarrow> same_y a c"
  by (simp add: same_y_def)

lemma move_loop_frame_x:
  "move_loop n m es d step w = Some (Inr w') \<Longrightarrow> fst (distance_to_walk w) = 0 \<Longrightarrow>
     same_x (sprite w) (sprite w') \<and> fst (distance_to_walk w') = 0 \<and> (collided w \<longrightarrow> collided w')"
proof (induction n arbitrary: w)
  case 0
  then show ?case by (simp add: same_x_def split: if_splits)
next
  case (Suc n)
  show ?case
  proof (cases "magnitude (distance_to_walk w) = 0")
    case True
    with Suc.prems show ?thesis by (simp add: same_x_def)
  next
    case False
    have h: "horizontal m es d step w = Inr w"
      using Suc.prems(2) by (simp add: horizontal_def)
    from Suc.prems(1) False h obtain w2 where
      v: "vertical m es d step w = Inr w2" and l: "move_loop n m es d step w2 = Some (Inr w')"
      by (auto split: sum.splits)
    from vertical_frame [OF v] Suc.prems(2) have
      f: "same_x (sprite w) (sprite w2)" "fst (distance_to_walk w2) = 0" "collided w \<longrightarrow> collided w2"
      by simp_all
    from Suc.IH [OF l f(2)] f show ?thesis
      by (auto intro: same_x_trans)
  qed
qed

lemma move_loop_frame_y:
  "move_loop n m es d step w = Some (Inr w') \<Longrightarrow> snd (distance_to_walk w) = 0 \<Longrightarrow>
     same_y (sprite w) (sprite w') \<and> snd (distance_to_walk w') = 0 \<and> (collided w \<longrightarrow> collided w')"
proof (induction n arbitrary: w)
  case 0
  then show ?case by (simp add: same_y_def split: if_splits)
next
  case (Suc n)
  show ?case
  proof (cases "magnitude (distance_to_walk w) = 0")
    case True
    with Suc.prems show ?thesis by (simp add: same_y_def)
  next
    case False
    from Suc.prems(1) False obtain w1 where
      h: "horizontal m es d step w = Inr w1" and r: "after_horizontal n m es d step w1 = Some (Inr w')"
      by (auto simp: after_horizontal_def split: sum.splits)
    from horizontal_frame [OF h] Suc.prems(2) have
      f: "same_y (sprite w) (sprite w1)" "snd (distance_to_walk w1) = 0" "collided w \<longrightarrow> collided w1"
      by simp_all
    have v: "vertical m es d step w1 = Inr w1"
      using f(2) by (simp add: vertical_def)
    with r have l: "move_loop n m es d step w1 = Some (Inr w')"
      by (simp add: after_horizontal_def)
    from Suc.IH [OF l f(2)] f show ?thesis
      by (auto intro: same_y_trans)
  qed
qed


lemma horizontal_distance:
  assumes "horizontal m es d step w = Inr w'"
    and "0 \<le> fst step * \<bar>fst d\<bar>" and "0 \<le> fst (distance_to_walk w)"
    and "fst (distance_to_walk w) \<le> real (Suc n) * (fst step * \<bar>fst d\<bar>)"
  shows "0 \<le> fst (distance_to_walk w') \<and> fst (distance_to_walk w') \<le> real n * (fst step * \<bar>fst d\<bar>)"
proof -
  have nn: "0 \<le> real n * (fst step * \<bar>fst d\<bar>)"
    using assms(2) by simp
  have step: "0 \<le> fst (distance_to_walk (step_x d step w)) \<and>
      fst (distance_to_walk (step_x d step w)) \<le> real n * (fst step * \<bar>fst d\<bar>)"
    using assms(2-4) nn by (auto simp: step_x_def Let_def algebra_simps split: prod.splits)
  show ?thesis
  proof (cases "fst (distance_to_walk w) = 0")
    case True
    with assms(1) nn show ?thesis by (simp add: horizontal_def)
  next
    case False
    with assms(1) step nn show ?thesis
      by (auto simp: horizontal_def Let_def split: sum.splits if_splits prod.splits)
  qed
qed

lemma vertical_distance:
  assumes "vertical m es d step w = Inr w'"
    and "0 \<le> snd step * \<bar>snd d\<bar>" and "0 \<le> snd (distance_to_walk w)"
    and "snd (distance_to_walk w) \<le> real (Suc n) * (snd step * \<bar>snd d\<bar>)"
  shows "0 \<le> snd (distance_to_walk w') \<and> snd (distance_to_walk w') \<le> real n * (snd step * \<bar>snd d\<bar>)"
proof -
  have nn: "0 \<le> real n * (snd step * \<bar>snd d\<bar>)"
    using assms(2) by simp
  have step: "0 \<le> snd (distance_to_walk (step_y d step w)) \<and>
      snd (distance_to_walk (step_y d step w)) \<le> real n * (snd step * \<bar>snd d\<bar>)"
    using assms(2-4) nn by (auto simp: step_y_def Let_def algebra_simps split: prod.splits)
  show ?thesis
  proof (cases "snd (distance_to_walk w) = 0")
    case True
    with assms(1) nn show ?thesis by (simp add: vertical_def)
  next
    case False
    with assms(1) step nn show ?thesis
      by (auto simp: vertical_def Let_def split: sum.splits if_splits prod.splits)
  qed
qed

lemma move_loop_enough:
  assumes "0 \<le> fst step * \<bar>fst d\<bar>" and "0 \<le> snd step * \<bar>snd d\<bar>"
  shows "0 \<le> fst (distance_to_walk w) \<Longrightarrow> 0 \<le> snd (distance_to_walk w) \<Longrightarrow>
     fst (distance_to_walk w) \<le> real n * (fst step * \<bar>fst d\<bar>) \<Longrightarrow>
     snd (distance_to_walk w) \<le> real n * (snd step * \<bar>snd d\<bar>) \<Longrightarrow>
     move_loop n m es d step w \<noteq> None"
proof (induction n arbitrary: w)
  case 0
  then have "distance_to_walk w = (0, 0)"
    by (cases "distance_to_walk w") simp
  then show ?case by (simp add: magnitude_def)
next
  case (Suc n)
  show ?case
  proof (cases "horizontal m es d step w")
    case (Inl e)
    then show ?thesis by simp
  next
    case (Inr w1)
    note h = horizontal_distance [OF Inr assms(1) Suc.prems(1) Suc.prems(3)]
    note hf = horizontal_frame [OF Inr]
    show ?thesis
    proof (cases "vertical m es d step w1")
      case (Inl e)
      with Inr show ?thesis by simp
    next
      case (Inr w2)
      have "0 \<le> snd (distance_to_walk w1)"
        "snd (distance_to_walk w1) \<le> real (Suc n) * (snd step * \<bar>snd d\<bar>)"
        using hf Suc.prems by simp_all
      note v = vertical_distance [OF Inr assms(2) this]
      note vf = vertical_frame [OF Inr]
      have "move_loop n m es d step w2 \<noteq> None"
        using Suc.IH [of w2] h v vf by simp
      with Inr \<open>horizontal m es d step w = Inr w1\<close> show ?thesis by simp
    qed
  qed
qed

lemma move_returns:
  assumes "0 < r_w (hitbox a)" and "0 < r_h (hitbox a)"
  shows "move (nat \<lceil>\<bar>distance\<bar>\<rceil>) m es a distance direction \<noteq> None"
proof -
  define d where "d = (if magnitude direction > 0 then normalize_vec direction else direction)"
  define n where "n = nat \<lceil>\<bar>distance\<bar>\<rceil>"
  let ?step = "(real_of_int (r_w (hitbox a)), real_of_int (r_h (hitbox a)))"
  let ?w = "\<lparr>sprite = a, distance_to_walk = (\<bar>fst d * distance\<bar>, \<bar>snd d * distance\<bar>), collided = False\<rparr>"
  have n: "\<bar>distance\<bar> \<le> real n"
    unfolding n_def by linarith
  have bound: "\<bar>c * distance\<bar> \<le> real n * (real_of_int k * \<bar>c\<bar>)" if "0 < k" for c k
  proof -
    have "1 \<le> real_of_int k" using that by simp
    then have "\<bar>distance\<bar> \<le> real n * real_of_int k"
      using n by (metis mult.right_neutral mult_mono of_nat_0_le_iff order_trans zero_le_one)
    then have "\<bar>c\<bar> * \<bar>distance\<bar> \<le> \<bar>c\<bar> * (real n * real_of_int k)"
      by (simp add: mult_left_mono)
    then show ?thesis by (simp add: abs_mult ac_simps)
  qed
  have "move_loop n m es d ?step ?w \<noteq> None"
    by (rule move_loop_enough) (use assms bound in simp_all)
  then show ?thesis
    unfolding move_def Let_def d_def [symmetric] n_def [symmetric]
    by (auto split: option.splits sum.splits)
qed


lemma get_obstacles_collidable: "get_obstacles m a = Inr ts \<Longrightarrow> \<forall>t\<in>set ts. collidable t"
  by (auto simp: get_obstacles_def split: sum.splits)

lemma blocked_horizontal:
  assumes go: "fst (distance_to_walk w) \<noteq> 0"
    and ts: "get_obstacles m (sprite (step_x d step w)) = Inr ts"
    and hit: "colision_horizontal d ts (sprite (step_x d step w), False) = (a, True)"
  shows "\<exists>w1. horizontal m es d step w = Inr w1 \<and> sprite w1 = a \<and> collided w1 \<and>
           fst (distance_to_walk w1) = 0 \<and>
           (\<exists>t\<in>set ts. collidable t \<and> flush_x d a t \<and>
              (0 \<le> r_w (collider a) \<and> 0 \<le> r_w (tile_collider t)
                 \<longrightarrow> \<not> colliderect (collider a) (tile_collider t))) \<and>
           (\<forall>n w'. after_horizontal n m es d step w1 = Some (Inr w')
              \<longrightarrow> collided w' \<and> fst (distance_to_walk w') = 0 \<and> same_x a (sprite w'))"
proof -
  let ?w0 = "step_x d step w"
  define w1 where
    "w1 = ?w0\<lparr>sprite := a, collided := True, distance_to_walk := (0, snd (distance_to_walk ?w0))\<rparr>"
  have h: "horizontal m es d step w = Inr w1"
    using go ts hit by (simp add: horizontal_def colision_def Let_def w1_def)
  have basic: "sprite w1 = a" "collided w1" "fst (distance_to_walk w1) = 0"
    by (simp_all add: w1_def)
  from colision_horizontal_flush [OF hit, of "set ts"] obtain t
    where t: "t \<in> set ts" "flush_x d a t" by auto
  have tile: "\<exists>t\<in>set ts. collidable t \<and> flush_x d a t \<and>
              (0 \<le> r_w (collider a) \<and> 0 \<le> r_w (tile_collider t)
                 \<longrightarrow> \<not> colliderect (collider a) (tile_collider t))"
    using t get_obstacles_collidable [OF ts] flush_x_apart [OF t(2)] by blast
  have rest: "collided w' \<and> fst (distance_to_walk w') = 0 \<and> same_x a (sprite w')"
    if "after_horizontal n m es d step w1 = Some (Inr w')" for n w'
  proof -
    from that obtain w2 where v: "vertical m es d step w1 = Inr w2"
      and l: "move_loop n m es d step w2 = Some (Inr w')"
      by (auto simp: after_horizontal_def split: sum.splits)
    from vertical_frame [OF v] basic have
      f: "same_x a (sprite w2)" "fst (distance_to_walk w2) = 0" "collided w2" by simp_all
    from move_loop_frame_x [OF l f(2)] f show ?thesis
      by (auto intro: same_x_trans)
  qed
  from h basic tile rest show ?thesis by blast
qed

lemma blocked_vertical:
  assumes go: "snd (distance_to_walk w) \<noteq> 0"
    and ts: "get_obstacles m (sprite (step_y d step w)) = Inr ts"
    and hit: "colision_vertical d ts (sprite (step_y d step w), False) = (a, True)"
  shows "\<exists>w1. vertical m es d step w = Inr w1 \<and> sprite w1 = a \<and> collided w1 \<and>
           snd (distance_to_walk w1) = 0 \<and>
           (\<exists>t\<in>set ts. collidable t \<and> flush_y d a t \<and>
              (0 \<le> r_h (collider a) \<and> 0 \<le> r_h (tile_collider t)
                 \<longrightarrow> \<not> colliderect (collider a) (tile_collider t))) \<and>
           (\<forall>n w'. move_loop n m es d step w1 = Some (Inr w')
              \<longrightarrow> collided w' \<and> snd (distance_to_walk w') = 0 \<and> same_y a (sprite w'))"
proof -
  let ?w0 = "step_y d step w"
  define w1 where
    "w1 = ?w0\<lparr>sprite := a, collided := True, distance_to_walk := (fst (distance_to_walk ?w0), 0)\<rparr>"
  have h: "vertical m es d step w = Inr w1"
    using go ts hit by (simp add: vertical_def colision_def Let_def w1_def)
  have basic: "sprite w1 = a" "collided w1" "snd (distance_to_walk w1) = 0"
    by (simp_all add: w1_def)
  from colision_vertical_flush [OF hit, of "set ts"] obtain t
    where t: "t \<in> set ts" "flush_y d a t" by auto
  have tile: "\<exists>t\<in>set ts. collidable t \<and> flush_y d a t \<and>
              (0 \<le> r_h (collider a) \<and> 0 \<le> r_h (tile_collider t)
                 \<longrightarrow> \<not> colliderect (collider a) (tile_collider t))"
    using t get_obstacles_collidable [OF ts] flush_y_apart [OF t(2)] by blast
  have rest: "collided w' \<and> snd (distance_to_walk w') = 0 \<and> same_y a (sprite w')"
    if "move_loop n m es d step w1 = Some (Inr w')" for n w'
    using move_loop_frame_y [OF that basic(3)] basic by simp
  from h basic tile rest show ?thesis by blast
qed

lemma hit_horizontal:
  assumes go: "fst (distance_to_walk w) \<noteq> 0"
    and ts: "get_obstacles m (sprite (step_x d step w)) = Inr ts"
    and miss: "colision_horizontal d ts (sprite (step_x d step w), False) = (a, False)"
    and hit: "check_hit a es"
  shows "a = sprite (step_x d step w) \<and>
         (\<exists>w1. horizontal m es d step w = Inr w1 \<and> sprite w1 = a \<and> collided w1 \<and>
            fst (distance_to_walk w1) = 0 \<and>
            (\<forall>n w'. after_horizontal n m es d step w1 = Some (Inr w')
               \<longrightarrow> collided w' \<and> fst (distance_to_walk w') = 0 \<and> same_x a (sprite w')))"
proof -
  let ?w0 = "step_x d step w"
  define w1 where
    "w1 = ?w0\<lparr>sprite := a, collided := True, distance_to_walk := (0, snd (distance_to_walk ?w0))\<rparr>"
  have h: "horizontal m es d step w = Inr w1"
    using go ts miss hit by (simp add: horizontal_def colision_def Let_def w1_def)
  have basic: "sprite w1 = a" "collided w1" "fst (distance_to_walk w1) = 0"
    by (simp_all add: w1_def)
  have rest: "collided w' \<and> fst (distance_to_walk w') = 0 \<and> same_x a (sprite w')"
    if "after_horizontal n m es d step w1 = Some (Inr w')" for n w'
  proof -
    from that obtain w2 where v: "vertical m es d step w1 = Inr w2"
      and l: "move_loop n m es d step w2 = Some (Inr w')"
      by (auto simp: after_horizontal_def split: sum.splits)
    from vertical_frame [OF v] basic have
      f: "same_x a (sprite w2)" "fst (distance_to_walk w2) = 0" "collided w2" by simp_all
    from move_loop_frame_x [OF l f(2)] f show ?thesis
      by (auto intro: same_x_trans)
  qed
  from colision_horizontal_miss [OF miss] h basic rest show ?thesis by blast
qed

lemma hit_vertical:
  assumes go: "snd (distance_to_walk w) \<noteq> 0"
    and ts: "get_obstacles m (sprite (step_y d step w)) = Inr ts"
    and miss: "colision_vertical d ts (sprite (step_y d step w), False) = (a, False)"
    and hit: "check_hit a es"
  shows "a = sprite (step_y d step w) \<and>
         (\<exists>w1. vertical m es d step w = Inr w1 \<and> sprite w1 = a \<and> collided w1 \<and>
            snd (distance_to_walk w1) = 0 \<and>
            (\<forall>n w'. move_loop n m es d step w1 = Some (Inr w')
               \<longrightarrow> collided w' \<and> snd (distance_to_walk w') = 0 \<and> same_y a (sprite w')))"
proof -
  let ?w0 = "step_y d step w"
  define w1 where
    "w1 = ?w0\<lparr>sprite := a, collided := True, distance_to_walk := (fst (distance_to_walk ?w0), 0)\<rparr>"
  have h: "vertical m es d step w = Inr w1"
    using go ts miss hit by (simp add: vertical_def colision_def Let_def w1_def)
  have basic: "sprite w1 = a" "collided w1" "snd (distance_to_walk w1) = 0"
    by (simp_all add: w1_def)
  have rest: "collided w' \<and> snd (distance_to_walk w') = 0 \<and> same_y a (sprite w')"
    if "move_loop n m es d step w1 = Some (Inr w')" for n w'
    using move_loop_frame_y [OF that basic(3)] basic by simp
  from colision_vertical_miss [OF miss] h basic rest show ?thesis by blast
qed

subsection \<open>The concrete walks\<close>

lemma hero_eq:
  "hero = \<lparr>pos = (90, 100), collider = \<lparr>r_left = 90, r_top = 100, r_w = 16, r_h = 16\<rparr>,
           hitbox = \<lparr>r_left = 92, r_top = 102, r_w = 12, r_h = 12\<rparr>, vulnerable = True\<rparr>"
  by (simp add: hero_def MovingSprite_def rect_coord_def inflate_def half_trunc_def)

lemma hero2_eq:
  "hero2 = \<lparr>pos = (94, 100), collider = \<lparr>r_left = 94, r_top = 100, r_w = 16, r_h = 16\<rparr>,
            hitbox = \<lparr>r_left = 96, r_top = 102, r_w = 12, r_h = 12\<rparr>, vulnerable = True\<rparr>"
  by (simp add: hero2_def MovingSprite_def rect_coord_def inflate_def half_trunc_def)

lemma foe_eq:
  "foe = \<lparr>pos = (110, 100), collider = \<lparr>r_left = 110, r_top = 100, r_w = 16, r_h = 16\<rparr>,
          hitbox = \<lparr>r_left = 112, r_top = 102, r_w = 12, r_h = 12\<rparr>, vulnerable = True\<rparr>"
  by (simp add: foe_def MovingSprite_def rect_coord_def inflate_def half_trunc_def)

lemma foe_south_eq:
  "foe_south = \<lparr>pos = (94, 120), collider = \<lparr>r_left = 94, r_top = 120, r_w = 16, r_h = 16\<rparr>,
          hitbox = \<lparr>r_left = 96, r_top = 122, r_w = 12, r_h = 12\<rparr>, vulnerable = True\<rparr>"
  by (simp add: foe_south_def MovingSprite_def rect_coord_def inflate_def half_trunc_def)

lemma east_tile_eq:
  "east_tile = \<lparr>tile_id = 0, t_pos = (112, 96), tile_image = (16, 16),
       tile_collider = \<lparr>r_left = 112, r_top = 104, r_w = 16, r_h = 8\<rparr>,
       collidable = True, tile_visible = True\<rparr>"
  by (simp add: east_tile_def Tile_def inflate_def move_rect_def half_trunc_def)

lemma south_tile_eq:
  "south_tile = \<lparr>tile_id = 1, t_pos = (96, 112), tile_image = (16, 16),
       tile_collider = \<lparr>r_left = 96, r_top = 120, r_w = 16, r_h = 8\<rparr>,
       collidable = True, tile_visible = True\<rparr>"
  by (simp add: south_tile_def Tile_def inflate_def move_rect_def half_trunc_def)

lemma place_east:
  "place_tile blank_map (7, 6) \<lparr>tc_type = ''wall_top'', variation = 0\<rparr> Foreground True True 0
     = (None, blank_map\<lparr>matrix_foreground :=
                 (replicate 62 (replicate 62 None))[6 := (replicate 62 None)[7 := Some east_tile]],
               foreground_tiles := {east_tile}, next_id := 1\<rparr>)"
  by (simp add: place_tile_def blank_simps is_within_bounds_def tiles_only_def Let_def dom_def
      register_tile_def setitem2_def getitem_def setitem_def py_index_def east_tile_def
      tile_inflate_def tile_move_def width_def height_def)

lemma corner_map_eq:
  "corner_map =
     blank_map\<lparr>matrix_foreground :=
                 (replicate 62 (replicate 62 None))
                   [6 := (replicate 62 None)[7 := Some east_tile],
                    7 := (replicate 62 None)[6 := Some south_tile]],
               foreground_tiles := {south_tile, east_tile}, next_id := 2\<rparr>"
  unfolding corner_map_def place_east
  by (simp add: place_tile_def blank_simps is_within_bounds_def tiles_only_def Let_def dom_def
      register_tile_def setitem2_def getitem_def setitem_def py_index_def east_tile_def south_tile_def
      tile_inflate_def tile_move_def width_def height_def)

lemmas grid_eval = get_tiles_square_def is_within_bounds_def width_def height_def Let_def
  get_tile_def matrix_def getitem2_def getitem_def py_index_def blank_simps get_obstacles_def tile_pos_def

lemma corner_obstacles_east:
  "fst (pos a) = 102 \<Longrightarrow> snd (pos a) = 100 \<Longrightarrow> get_obstacles corner_map a = Inr [south_tile, east_tile]"
  unfolding corner_map_eq
  by (simp add: grid_eval) (simp add: east_tile_eq south_tile_eq)

lemma corner_obstacles_south:
  "fst (pos a) = 94 \<Longrightarrow> snd (pos a) = 112 \<Longrightarrow> get_obstacles corner_map a = Inr [south_tile]"
  unfolding corner_map_eq
  by (simp add: grid_eval) (simp add: east_tile_eq south_tile_eq)

lemma blank_obstacles:
  "get_obstacles blank_map \<lparr>pos = (102, 100), collider = c, hitbox = h, vulnerable = v\<rparr> = Inr []"
  "get_obstacles blank_map \<lparr>pos = (114, 100), collider = c, hitbox = h, vulnerable = v\<rparr> = Inr []"
  "get_obstacles blank_map \<lparr>pos = (120, 100), collider = c, hitbox = h, vulnerable = v\<rparr> = Inr []"
  by (simp_all add: grid_eval)

lemma step_east:
  "step_x (1, 0) (12, 12) walk_east =
     \<lparr>sprite = hero_hit, distance_to_walk = (988, 0), collided = False\<rparr>"
  by (simp add: step_x_def walk_east_def hero_eq hero_hit_def py_round_def Let_def)

lemma step_south:
  "step_y (0, 1) (12, 12) walk_south =
     \<lparr>sprite = \<lparr>pos = (94, 112), collider = \<lparr>r_left = 94, r_top = 112, r_w = 16, r_h = 16\<rparr>,
                 hitbox = \<lparr>r_left = 96, r_top = 112, r_w = 12, r_h = 12\<rparr>, vulnerable = True\<rparr>,
      distance_to_walk = (0, 988), collided = False\<rparr>"
  by (simp add: step_y_def walk_south_def hero2_eq py_round_def Let_def)

lemma step_hit:
  "step_x (1, 0) (12, 12) walk_hit =
     \<lparr>sprite = hero_hit, distance_to_walk = (18, 0), collided = False\<rparr>"
  by (simp add: step_x_def walk_hit_def hero_eq hero_hit_def py_round_def Let_def)

lemma step_hit_south:
  "step_y (0, 1) (12, 12) walk_hit_south =
     \<lparr>sprite = hero_hit_south, distance_to_walk = (0, 18), collided = False\<rparr>"
  by (simp add: step_y_def walk_hit_south_def hero2_eq hero_hit_south_def py_round_def Let_def)

lemma snap_east:
  "colision_horizontal (1, 0) [south_tile, east_tile] (hero_hit, False) = (hero_east, True)"
  by (simp add: hero_hit_def hero_east_def east_tile_eq south_tile_eq colliderect_def r_right_def
      r_bottom_def set_right_def Let_def)

lemma snap_south:
  "colision_vertical (0, 1) [south_tile]
     (\<lparr>pos = (94, 112), collider = \<lparr>r_left = 94, r_top = 112, r_w = 16, r_h = 16\<rparr>,
       hitbox = \<lparr>r_left = 96, r_top = 112, r_w = 12, r_h = 12\<rparr>, vulnerable = True\<rparr>, False)
     = (hero_south, True)"
  by (simp add: hero_south_def south_tile_eq colliderect_def r_right_def
      r_bottom_def set_bottom_def Let_def)

lemma hero_hit_obstacles: "get_obstacles corner_map hero_hit = Inr [south_tile, east_tile]"
  by (rule corner_obstacles_east) (simp_all add: hero_hit_def)

lemma blank_obstacles_hit:
  "get_obstacles blank_map hero_hit = Inr []" "get_obstacles blank_map hero_hit_south = Inr []"
  by (simp_all add: grid_eval hero_hit_def hero_hit_south_def)

lemma check_hit_east: "check_hit hero_hit [foe]"
  by (simp add: check_hit_def hero_hit_def foe_eq colliderect_def r_right_def r_bottom_def)

lemma check_hit_south: "check_hit hero_hit_south [foe_south]"
  by (simp add: check_hit_def hero_hit_south_def foe_south_eq colliderect_def r_right_def r_bottom_def)

lemma horizontal_east:
  "horizontal corner_map [] (1, 0) (12, 12) walk_east =
     Inr \<lparr>sprite = hero_east, distance_to_walk = (0, 0), collided = True\<rparr>"
  by (simp add: horizontal_def walk_east_def step_east [unfolded walk_east_def] colision_def
      hero_hit_obstacles snap_east del: colision_horizontal.simps)

lemma hyps_east:
  "fst (distance_to_walk walk_east) \<noteq> 0 \<and>
   get_obstacles corner_map (sprite (step_x (1, 0) (12, 12) walk_east)) = Inr [south_tile, east_tile] \<and>
   colision_horizontal (1, 0) [south_tile, east_tile] (sprite (step_x (1, 0) (12, 12) walk_east), False)
     = (hero_east, True)"
  by (simp add: step_east hero_hit_obstacles snap_east del: colision_horizontal.simps)
    (simp add: walk_east_def)

lemma hyps_south:
  "snd (distance_to_walk walk_south) \<noteq> 0 \<and>
   get_obstacles corner_map (sprite (step_y (0, 1) (12, 12) walk_south)) = Inr [south_tile] \<and>
   colision_vertical (0, 1) [south_tile] (sprite (step_y (0, 1) (12, 12) walk_south), False)
     = (hero_south, True)"
  by (simp add: step_south corner_obstacles_south snap_south del: colision_vertical.simps)
    (simp add: walk_south_def)

lemma move_hero_blocked:
  "move (Suc 0) corner_map [] hero 1000 (1, 0) = Some (Inr (hero_east, True))"
proof -
  have "move_loop (Suc 0) corner_map [] (1, 0) (12, 12) walk_east =
          Some (Inr \<lparr>sprite = hero_east, distance_to_walk = (0, 0), collided = True\<rparr>)"
    by (simp add: horizontal_east vertical_def) (simp add: walk_east_def magnitude_def)
  then show ?thesis
    by (simp add: move_def magnitude_def normalize_vec_def Let_def walk_east_def hero_eq)
qed

lemma move_hero_free:
  "move (Suc (Suc (Suc 0))) blank_map [] hero 30 (1, 0) = Some (Inr (hero_free, False))"
  unfolding hero_eq hero_free_def
  by (simp add: move_def magnitude_def normalize_vec_def Let_def horizontal_def
      vertical_def step_x_def step_y_def copysign_def py_round_def colision_def blank_obstacles
      check_hit_def)

section \<open>Blocked moves\<close>

text \<open>
  C1, as the code has it. The claim speaks of the hitbox; the code tests and snaps the
  collider. When the tile test of a step along an axis reports a collision, the step
  ends with the collider's leading edge on the trailing edge of a collidable tile near
  the sprite (so the two do not overlap when their sizes are not negative), with no
  distance left on that axis and the flag \<open>collided\<close> set; whatever the rest of the call
  does, it returns with the flag set and with position and collider unchanged on that
  axis. A sprite whose hitbox has positive size makes the call end within
  \<open>\<lceil>|distance|\<rceil>\<close> rounds.
\<close>

theorem blocked_axis_snaps_collider:
  "(fst (distance_to_walk w) \<noteq> 0 \<and>
    get_obstacles m (sprite (step_x d step w)) = Inr ts \<and>
    colision_horizontal d ts (sprite (step_x d step w), False) = (a, True) \<longrightarrow>
      (\<exists>w1. horizontal m es d step w = Inr w1 \<and> sprite w1 = a \<and> collided w1 \<and>
         fst (distance_to_walk w1) = 0 \<and>
         (\<exists>t\<in>set ts. collidable t \<and> flush_x d a t \<and>
            (0 \<le> r_w (collider a) \<and> 0 \<le> r_w (tile_collider t)
               \<longrightarrow> \<not> colliderect (collider a) (tile_collider t))) \<and>
         (\<forall>n w'. after_horizontal n m es d step w1 = Some (Inr w')
            \<longrightarrow> collided w' \<and> fst (distance_to_walk w') = 0 \<and> same_x a (sprite w')))) \<and>
   (snd (distance_to_walk v) \<noteq> 0 \<and>
    get_obstacles m (sprite (step_y e step v)) = Inr us \<and>
    colision_vertical e us (sprite (step_y e step v), False) = (b, True) \<longrightarrow>
      (\<exists>v1. vertical m es e step v = Inr v1 \<and> sprite v1 = b \<and> collided v1 \<and>
         snd (distance_to_walk v1) = 0 \<and>
         (\<exists>t\<in>set us. collidable t \<and> flush_y e b t \<and>
            (0 \<le> r_h (collider b) \<and> 0 \<le> r_h (tile_collider t)
               \<longrightarrow> \<not> colliderect (collider b) (tile_collider t))) \<and>
         (\<forall>n v'. move_loop n m es e step v1 = Some (Inr v')
            \<longrightarrow> collided v' \<and> snd (distance_to_walk v') = 0 \<and> same_y b (sprite v')))) \<and>
   (0 < r_w (hitbox a0) \<and> 0 < r_h (hitbox a0) \<longrightarrow>
      move (nat \<lceil>\<bar>distance\<bar>\<rceil>) m es a0 distance direction \<noteq> None)"
  using blocked_horizontal [of w m d step ts a es] blocked_vertical [of v m e step us b es]
    move_returns [of a0 distance m es direction]
  by blast

theorem blocked_axis_snaps_collider_witness:
  "(fst (distance_to_walk walk_east) \<noteq> 0 \<and>
    get_obstacles corner_map (sprite (step_x (1, 0) (12, 12) walk_east)) = Inr [south_tile, east_tile] \<and>
    colision_horizontal (1, 0) [south_tile, east_tile] (sprite (step_x (1, 0) (12, 12) walk_east), False)
      = (hero_east, True)) \<and>
   (\<exists>w1. horizontal corner_map [] (1, 0) (12, 12) walk_east = Inr w1 \<and> sprite w1 = hero_east \<and>
      collided w1 \<and> fst (distance_to_walk w1) = 0 \<and>
      (\<exists>t\<in>set [south_tile, east_tile]. collidable t \<and> flush_x (1, 0) hero_east t \<and>
         (0 \<le> r_w (collider hero_east) \<and> 0 \<le> r_w (tile_collider t)
            \<longrightarrow> \<not> colliderect (collider hero_east) (tile_collider t))) \<and>
      (\<forall>n w'. after_horizontal n corner_map [] (1, 0) (12, 12) w1 = Some (Inr w')
         \<longrightarrow> collided w' \<and> fst (distance_to_walk w') = 0 \<and> same_x hero_east (sprite w'))) \<and>
   (snd (distance_to_walk walk_south) \<noteq> 0 \<and>
    get_obstacles corner_map (sprite (step_y (0, 1) (12, 12) walk_south)) = Inr [south_tile] \<and>
    colision_vertical (0, 1) [south_tile] (sprite (step_y (0, 1) (12, 12) walk_south), False)
      = (hero_south, True)) \<and>
   (\<exists>v1. vertical corner_map [] (0, 1) (12, 12) walk_south = Inr v1 \<and> sprite v1 = hero_south \<and>
      collided v1 \<and> snd (distance_to_walk v1) = 0 \<and>
      (\<exists>t\<in>set [south_tile]. collidable t \<and> flush_y (0, 1) hero_south t \<and>
         (0 \<le> r_h (collider hero_south) \<and> 0 \<le> r_h (tile_collider t)
            \<longrightarrow> \<not> colliderect (collider hero_south) (tile_collider t))) \<and>
      (\<forall>n v'. move_loop n corner_map [] (0, 1) (12, 12) v1 = Some (Inr v')
         \<longrightarrow> collided v' \<and> snd (distance_to_walk v') = 0 \<and> same_y hero_south (sprite v'))) \<and>
   (0 < r_w (hitbox hero) \<and> 0 < r_h (hitbox hero)) \<and>
   move (nat \<lceil>\<bar>1000 :: real\<bar>\<rceil>) corner_map [] hero 1000 (1, 0) \<noteq> None"
proof -
  have sizes: "0 < r_w (hitbox hero) \<and> 0 < r_h (hitbox hero)"
    by (simp add: hero_eq)
  note inst = blocked_axis_snaps_collider [where w = walk_east and m = corner_map and d = "(1, 0)"
      and step = "(12, 12)" and ts = "[south_tile, east_tile]" and a = hero_east and es = "[]"
      and v = walk_south and e = "(0, 1)" and us = "[south_tile]" and b = hero_south
      and ?a0.0 = hero and distance = 1000 and direction = "(1, 0)"]
  from inst hyps_east hyps_south sizes show ?thesis
    by blast
qed

text \<open>
  C1, as the claim states it, fails: the sprite at \<open>(90, 100)\<close> walking east into the
  tile at \<open>(7, 6)\<close> returns true with its collider flush with the tile's collider, but
  its hitbox, left where the step put it, reaches two pixels into the tile's collider.
\<close>

theorem blocked_hitbox_overlaps_tile:
  "move 1 corner_map [] hero 1000 (1, 0) = Some (Inr (hero_east, True)) \<and>
   r_right (collider hero_east) = r_left (tile_collider east_tile) \<and>
   colliderect (hitbox hero_east) (tile_collider east_tile) \<and>
   r_right (hitbox hero_east) \<noteq> r_left (tile_collider east_tile)"
  using move_hero_blocked
  by (simp add: hero_east_def east_tile_eq colliderect_def r_right_def r_bottom_def)

section \<open>Hits on entities\<close>

text \<open>A hit on one axis leaves the distance and the position of the other axis alone, so
  the loop goes on while that distance is not zero.\<close>

lemma hit_horizontal_other:
  assumes go: "fst (distance_to_walk w) \<noteq> 0"
    and ts: "get_obstacles m (sprite (step_x d step w)) = Inr ts"
    and miss: "colision_horizontal d ts (sprite (step_x d step w), False) = (a, False)"
    and hit: "check_hit a es"
    and h: "horizontal m es d step w = Inr w1"
  shows "snd (distance_to_walk w1) = snd (distance_to_walk w) \<and> same_y (sprite w) (sprite w1) \<and>
         (snd (distance_to_walk w) \<noteq> 0 \<longrightarrow> magnitude (distance_to_walk w1) \<noteq> 0)"
proof -
  from horizontal_frame [OF h]
  have f: "same_y (sprite w) (sprite w1)" "snd (distance_to_walk w1) = snd (distance_to_walk w)"
    by simp_all
  have "magnitude (distance_to_walk w1) \<noteq> 0" if "snd (distance_to_walk w) \<noteq> 0"
    using that f(2) by (auto simp: magnitude_zero_iff)
  with f show ?thesis by simp
qed

lemma hit_vertical_other:
  assumes go: "snd (distance_to_walk w) \<noteq> 0"
    and ts: "get_obstacles m (sprite (step_y d step w)) = Inr ts"
    and miss: "colision_vertical d ts (sprite (step_y d step w), False) = (a, False)"
    and hit: "check_hit a es"
    and h: "vertical m es d step w = Inr w1"
  shows "fst (distance_to_walk w1) = fst (distance_to_walk w) \<and> same_x (sprite w) (sprite w1) \<and>
         (fst (distance_to_walk w) \<noteq> 0 \<longrightarrow> magnitude (distance_to_walk w1) \<noteq> 0)"
proof -
  from vertical_frame [OF h]
  have f: "same_x (sprite w) (sprite w1)" "fst (distance_to_walk w1) = fst (distance_to_walk w)"
    by simp_all
  have "magnitude (distance_to_walk w1) \<noteq> 0" if "fst (distance_to_walk w) \<noteq> 0"
    using that f(2) by (auto simp: magnitude_zero_iff)
  with f show ?thesis by simp
qed

text \<open>The first steps of the diagonal walk beside the entity.\<close>

lemma foe_near_eq:
  "foe_near = \<lparr>pos = (100, 104), collider = \<lparr>r_left = 100, r_top = 104, r_w = 16, r_h = 16\<rparr>,
          hitbox = \<lparr>r_left = 102, r_top = 106, r_w = 12, r_h = 12\<rparr>, vulnerable = True\<rparr>"
  by (simp add: foe_near_def MovingSprite_def rect_coord_def inflate_def half_trunc_def)

lemma py_round_diagonal: "py_round (486 / 5) = 97" "py_round (548 / 5) = 110"
  by (simp_all add: py_round_def Let_def)

lemma step_diagonal_east:
  "step_x (3 / 5, 4 / 5) (12, 12) walk_diagonal =
     \<lparr>sprite = hero_diagonal_east, distance_to_walk = (114 / 5, 40), collided = False\<rparr>"
  by (simp add: step_x_def walk_diagonal_def hero_eq hero_diagonal_east_def py_round_diagonal Let_def)

lemma step_diagonal_south:
  "step_y (3 / 5, 4 / 5) (12, 12) walk_diagonal =
     \<lparr>sprite = hero_diagonal_south, distance_to_walk = (30, 152 / 5), collided = False\<rparr>"
  by (simp add: step_y_def walk_diagonal_def hero_eq hero_diagonal_south_def py_round_diagonal Let_def)

lemma blank_obstacles_diagonal:
  "get_obstacles blank_map hero_diagonal_east = Inr []"
  "get_obstacles blank_map hero_diagonal_south = Inr []"
  by (simp_all add: grid_eval hero_diagonal_east_def hero_diagonal_south_def)

lemma check_hit_diagonal:
  "check_hit hero_diagonal_east [foe_near]" "check_hit hero_diagonal_south [foe_near]"
  by (simp_all add: check_hit_def hero_diagonal_east_def hero_diagonal_south_def foe_near_eq
      colliderect_def r_right_def r_bottom_def)

lemma horizontal_diagonal:
  "horizontal blank_map [foe_near] (3 / 5, 4 / 5) (12, 12) walk_diagonal
     = Inr \<lparr>sprite = hero_diagonal_east, distance_to_walk = (0, 40), collided = True\<rparr>"
  by (simp add: horizontal_def step_diagonal_east colision_def blank_obstacles_diagonal
      check_hit_diagonal)
    (simp add: walk_diagonal_def)

lemma vertical_diagonal:
  "vertical blank_map [foe_near] (3 / 5, 4 / 5) (12, 12) walk_diagonal
     = Inr \<lparr>sprite = hero_diagonal_south, distance_to_walk = (30, 0), collided = True\<rparr>"
  by (simp add: vertical_def step_diagonal_south colision_def blank_obstacles_diagonal
      check_hit_diagonal)
    (simp add: walk_diagonal_def)

text \<open>
  C5, as the code has it. When the tile test of a step reports no collision and the hit
  test reports an overlap with a vulnerable entity, the sprite stays where the step put
  it (no snap), the flag \<open>collided\<close> is set and the distance left on that axis is set to
  zero: the call returns true and the sprite moves no further on that axis. The other
  axis continues: the hit changes neither its remaining distance nor the position along
  it, and while that distance is not zero the condition of the loop still holds.
\<close>

theorem hit_stops_axis:
  "(fst (distance_to_walk w) \<noteq> 0 \<and>
    get_obstacles m (sprite (step_x d step w)) = Inr ts \<and>
    colision_horizontal d ts (sprite (step_x d step w), False) = (a, False) \<and>
    check_hit a es \<longrightarrow>
      a = sprite (step_x d step w) \<and>
      (\<exists>w1. horizontal m es d step w = Inr w1 \<and> sprite w1 = a \<and> collided w1 \<and>
         fst (distance_to_walk w1) = 0 \<and>
         snd (distance_to_walk w1) = snd (distance_to_walk w) \<and> same_y (sprite w) a \<and>
         (snd (distance_to_walk w) \<noteq> 0 \<longrightarrow> magnitude (distance_to_walk w1) \<noteq> 0) \<and>
         (\<forall>n w'. after_horizontal n m es d step w1 = Some (Inr w')
            \<longrightarrow> collided w' \<and> fst (distance_to_walk w') = 0 \<and> same_x a (sprite w')))) \<and>
   (snd (distance_to_walk v) \<noteq> 0 \<and>
    get_obstacles m (sprite (step_y e step v)) = Inr us \<and>
    colision_vertical e us (sprite (step_y e step v), False) = (b, False) \<and>
    check_hit b es \<longrightarrow>
      b = sprite (step_y e step v) \<and>
      (\<exists>v1. vertical m es e step v = Inr v1 \<and> sprite v1 = b \<and> collided v1 \<and>
         snd (distance_to_walk v1) = 0 \<and>
         fst (distance_to_walk v1) = fst (distance_to_walk v) \<and> same_x (sprite v) b \<and>
         (fst (distance_to_walk v) \<noteq> 0 \<longrightarrow> magnitude (distance_to_walk v1) \<noteq> 0) \<and>
         (\<forall>n v'. move_loop n m es e step v1 = Some (Inr v')
            \<longrightarrow> collided v' \<and> snd (distance_to_walk v') = 0 \<and> same_y b (sprite v'))))"
proof (intro conjI impI)
  assume a: "fst (distance_to_walk w) \<noteq> 0 \<and>
    get_obstacles m (sprite (step_x d step w)) = Inr ts \<and>
    colision_horizontal d ts (sprite (step_x d step w), False) = (a, False) \<and>
    check_hit a es"
  then have h: "fst (distance_to_walk w) \<noteq> 0"
    "get_obstacles m (sprite (step_x d step w)) = Inr ts"
    "colision_horizontal d ts (sprite (step_x d step w), False) = (a, False)"
    "check_hit a es"
    by simp_all
  from hit_horizontal [OF h] obtain w1 where
    w1: "horizontal m es d step w = Inr w1" "sprite w1 = a" "collided w1"
      "fst (distance_to_walk w1) = 0"
      "\<forall>n w'. after_horizontal n m es d step w1 = Some (Inr w')
            \<longrightarrow> collided w' \<and> fst (distance_to_walk w') = 0 \<and> same_x a (sprite w')"
    and eq: "a = sprite (step_x d step w)"
    by blast
  from eq show "a = sprite (step_x d step w)" .
  from hit_horizontal_other [OF h w1(1)] w1 show
    "\<exists>w1. horizontal m es d step w = Inr w1 \<and> sprite w1 = a \<and> collided w1 \<and>
         fst (distance_to_walk w1) = 0 \<and>
         snd (distance_to_walk w1) = snd (distance_to_walk w) \<and> same_y (sprite w) a \<and>
         (snd (distance_to_walk w) \<noteq> 0 \<longrightarrow> magnitude (distance_to_walk w1) \<noteq> 0) \<and>
         (\<forall>n w'. after_horizontal n m es d step w1 = Some (Inr w')
            \<longrightarrow> collided w' \<and> fst (distance_to_walk w') = 0 \<and> same_x a (sprite w'))"
    by (intro exI [of _ w1]) simp
next
  assume a: "snd (distance_to_walk v) \<noteq> 0 \<and>
    get_obstacles m (sprite (step_y e step v)) = Inr us \<and>
    colision_vertical e us (sprite (step_y e step v), False) = (b, False) \<and>
    check_hit b es"
  then have h: "snd (distance_to_walk v) \<noteq> 0"
    "get_obstacles m (sprite (step_y e step v)) = Inr us"
    "colision_vertical e us (sprite (step_y e step v), False) = (b, False)"
    "check_hit b es"
    by simp_all
  from hit_vertical [OF h] obtain v1 where
    v1: "vertical m es e step v = Inr v1" "sprite v1 = b" "collided v1"
      "snd (distance_to_walk v1) = 0"
      "\<forall>n v'. move_loop n m es e step v1 = Some (Inr v')
            \<longrightarrow> collided v' \<and> snd (distance_to_walk v') = 0 \<and> same_y b (sprite v')"
    and eq: "b = sprite (step_y e step v)"
    by blast
  from eq show "b = sprite (step_y e step v)" .
  from hit_vertical_other [OF h v1(1)] v1 show
    "\<exists>v1. vertical m es e step v = Inr v1 \<and> sprite v1 = b \<and> collided v1 \<and>
         snd (distance_to_walk v1) = 0 \<and>
         fst (distance_to_walk v1) = fst (distance_to_walk v) \<and> same_x (sprite v) b \<and>
         (fst (distance_to_walk v) \<noteq> 0 \<longrightarrow> magnitude (distance_to_walk v1) \<noteq> 0) \<and>
         (\<forall>n v'. move_loop n m es e step v1 = Some (Inr v')
            \<longrightarrow> collided v' \<and> snd (distance_to_walk v') = 0 \<and> same_y b (sprite v'))"
    by (intro exI [of _ v1]) simp
qed

theorem hit_stops_axis_witness:
  "(fst (distance_to_walk walk_diagonal) \<noteq> 0 \<and>
    get_obstacles blank_map (sprite (step_x (3 / 5, 4 / 5) (12, 12) walk_diagonal)) = Inr [] \<and>
    colision_horizontal (3 / 5, 4 / 5) [] (sprite (step_x (3 / 5, 4 / 5) (12, 12) walk_diagonal), False)
      = (hero_diagonal_east, False) \<and>
    check_hit hero_diagonal_east [foe_near]) \<and>
   distance_to_walk walk_diagonal = (30, 40) \<and>
   horizontal blank_map [foe_near] (3 / 5, 4 / 5) (12, 12) walk_diagonal
     = Inr \<lparr>sprite = hero_diagonal_east, distance_to_walk = (0, 40), collided = True\<rparr> \<and>
   hero_diagonal_east = sprite (step_x (3 / 5, 4 / 5) (12, 12) walk_diagonal) \<and>
   (\<exists>w1. horizontal blank_map [foe_near] (3 / 5, 4 / 5) (12, 12) walk_diagonal = Inr w1 \<and>
      sprite w1 = hero_diagonal_east \<and> collided w1 \<and> fst (distance_to_walk w1) = 0 \<and>
      snd (distance_to_walk w1) = 40 \<and> same_y hero hero_diagonal_east \<and>
      magnitude (distance_to_walk w1) \<noteq> 0 \<and>
      (\<forall>n w'. after_horizontal n blank_map [foe_near] (3 / 5, 4 / 5) (12, 12) w1 = Some (Inr w')
         \<longrightarrow> collided w' \<and> fst (distance_to_walk w') = 0 \<and> same_x hero_diagonal_east (sprite w'))) \<and>
   (snd (distance_to_walk walk_diagonal) \<noteq> 0 \<and>
    get_obstacles blank_map (sprite (step_y (3 / 5, 4 / 5) (12, 12) walk_diagonal)) = Inr [] \<and>
    colision_vertical (3 / 5, 4 / 5) [] (sprite (step_y (3 / 5, 4 / 5) (12, 12) walk_diagonal), False)
      = (hero_diagonal_south, False) \<and>
    check_hit hero_diagonal_south [foe_near]) \<and>
   vertical blank_map [foe_near] (3 / 5, 4 / 5) (12, 12) walk_diagonal
     = Inr \<lparr>sprite = hero_diagonal_south, distance_to_walk = (30, 0), collided = True\<rparr> \<and>
   hero_diagonal_south = sprite (step_y (3 / 5, 4 / 5) (12, 12) walk_diagonal) \<and>
   (\<exists>v1. vertical blank_map [foe_near] (3 / 5, 4 / 5) (12, 12) walk_diagonal = Inr v1 \<and>
      sprite v1 = hero_diagonal_south \<and> collided v1 \<and> snd (distance_to_walk v1) = 0 \<and>
      fst (distance_to_walk v1) = 30 \<and> same_x hero hero_diagonal_south \<and>
      magnitude (distance_to_walk v1) \<noteq> 0 \<and>
      (\<forall>n v'. move_loop n blank_map [foe_near] (3 / 5, 4 / 5) (12, 12) v1 = Some (Inr v')
         \<longrightarrow> collided v' \<and> snd (distance_to_walk v') = 0 \<and> same_y hero_diagonal_south (sprite v')))"
proof -
  have d: "distance_to_walk walk_diagonal = (30, 40)" "sprite walk_diagonal = hero"
    by (simp_all add: walk_diagonal_def)
  have east: "fst (distance_to_walk walk_diagonal) \<noteq> 0 \<and>
    get_obstacles blank_map (sprite (step_x (3 / 5, 4 / 5) (12, 12) walk_diagonal)) = Inr [] \<and>
    colision_horizontal (3 / 5, 4 / 5) [] (sprite (step_x (3 / 5, 4 / 5) (12, 12) walk_diagonal), False)
      = (hero_diagonal_east, False) \<and>
    check_hit hero_diagonal_east [foe_near]"
    by (simp add: step_diagonal_east blank_obstacles_diagonal check_hit_diagonal d)
  have south: "snd (distance_to_walk walk_diagonal) \<noteq> 0 \<and>
    get_obstacles blank_map (sprite (step_y (3 / 5, 4 / 5) (12, 12) walk_diagonal)) = Inr [] \<and>
    colision_vertical (3 / 5, 4 / 5) [] (sprite (step_y (3 / 5, 4 / 5) (12, 12) walk_diagonal), False)
      = (hero_diagonal_south, False) \<and>
    check_hit hero_diagonal_south [foe_near]"
    by (simp add: step_diagonal_south blank_obstacles_diagonal check_hit_diagonal d)
  note inst = hit_stops_axis [where w = walk_diagonal and m = blank_map and d = "(3 / 5, 4 / 5)"
      and step = "(12, 12)" and ts = "[]" and a = hero_diagonal_east and es = "[foe_near]"
      and v = walk_diagonal and e = "(3 / 5, 4 / 5)" and us = "[]" and b = hero_diagonal_south]
  from inst east have "hero_diagonal_east = sprite (step_x (3 / 5, 4 / 5) (12, 12) walk_diagonal) \<and>
   (\<exists>w1. horizontal blank_map [foe_near] (3 / 5, 4 / 5) (12, 12) walk_diagonal = Inr w1 \<and>
      sprite w1 = hero_diagonal_east \<and> collided w1 \<and> fst (distance_to_walk w1) = 0 \<and>
      snd (distance_to_walk w1) = 40 \<and> same_y hero hero_diagonal_east \<and>
      magnitude (distance_to_walk w1) \<noteq> 0 \<and>
      (\<forall>n w'. after_horizontal n blank_map [foe_near] (3 / 5, 4 / 5) (12, 12) w1 = Some (Inr w')
         \<longrightarrow> collided w' \<and> fst (distance_to_walk w') = 0 \<and> same_x hero_diagonal_east (sprite w')))"
    by (simp add: d)
  moreover from inst south have "hero_diagonal_south = sprite (step_y (3 / 5, 4 / 5) (12, 12) walk_diagonal) \<and>
   (\<exists>v1. vertical blank_map [foe_near] (3 / 5, 4 / 5) (12, 12) walk_diagonal = Inr v1 \<and>
      sprite v1 = hero_diagonal_south \<and> collided v1 \<and> snd (distance_to_walk v1) = 0 \<and>
      fst (distance_to_walk v1) = 30 \<and> same_x hero hero_diagonal_south \<and>
      magnitude (distance_to_walk v1) \<noteq> 0 \<and>
      (\<forall>n v'. move_loop n blank_map [foe_near] (3 / 5, 4 / 5) (12, 12) v1 = Some (Inr v')
         \<longrightarrow> collided v' \<and> snd (distance_to_walk v') = 0 \<and> same_y hero_diagonal_south (sprite v')))"
    by (simp add: d)
  ultimately show ?thesis
    using east south d horizontal_diagonal vertical_diagonal by blast
qed

text \<open>
  C5, as the claim states it, fails: a sprite asked to walk 30 pixels east meets no tile
  and overlaps a vulnerable entity after its first step of 12 pixels. The 18 pixels that
  the step left are set to zero by the hit, and the call returns at 102 instead of 120.
\<close>

theorem hit_zeroes_remaining_distance:
  "colision Horizontal blank_map (1, 0) (sprite (step_x (1, 0) (12, 12) walk_hit))
     = Inr (sprite (step_x (1, 0) (12, 12) walk_hit), False) \<and>
   check_hit (sprite (step_x (1, 0) (12, 12) walk_hit)) [foe] \<and>
   distance_to_walk (step_x (1, 0) (12, 12) walk_hit) = (18, 0) \<and>
   horizontal blank_map [foe] (1, 0) (12, 12) walk_hit
     = Inr \<lparr>sprite = hero_hit, distance_to_walk = (0, 0), collided = True\<rparr> \<and>
   move 1 blank_map [foe] hero 30 (1, 0) = Some (Inr (hero_hit, True)) \<and>
   move 3 blank_map [] hero 30 (1, 0) = Some (Inr (hero_free, False))"
proof -
  have h: "horizontal blank_map [foe] (1, 0) (12, 12) walk_hit
     = Inr \<lparr>sprite = hero_hit, distance_to_walk = (0, 0), collided = True\<rparr>"
    by (simp add: horizontal_def step_hit colision_def blank_obstacles_hit check_hit_east)
      (simp add: walk_hit_def)
  have "move_loop (Suc 0) blank_map [foe] (1, 0) (12, 12) walk_hit =
          Some (Inr \<lparr>sprite = hero_hit, distance_to_walk = (0, 0), collided = True\<rparr>)"
    by (simp add: h vertical_def) (simp add: walk_hit_def magnitude_def)
  then have m1: "move 1 blank_map [foe] hero 30 (1, 0) = Some (Inr (hero_hit, True))"
    by (simp add: move_def magnitude_def normalize_vec_def Let_def walk_hit_def hero_eq)
  from h m1 move_hero_free show ?thesis
    by (simp add: numeral_3_eq_3 step_hit colision_def blank_obstacles_hit check_hit_east)
qed

section \<open>Hitbox and collider\<close>

text \<open>
  C6. The hitbox should stay inset in the collider by the margin through every update of
  the position. The constructor builds it so (two pixels in on each side); the setter of
  \<open>pos\<close> and every step of \<open>_move\<close> put the hitbox's corner on the collider's corner,
  and a snap against a tile moves the collider alone. After the setter, after a free walk
  and after a blocked walk the hitbox is no longer the inset collider.
\<close>

theorem hitbox_inset_lost:
  "hitbox_inset hero \<and>
   \<not> hitbox_inset (set_pos hero (90, 100)) \<and>
   hitbox (set_pos hero (90, 100)) = \<lparr>r_left = 90, r_top = 100, r_w = 12, r_h = 12\<rparr> \<and>
   collider (set_pos hero (90, 100)) = \<lparr>r_left = 90, r_top = 100, r_w = 16, r_h = 16\<rparr> \<and>
   move 3 blank_map [] hero 30 (1, 0) = Some (Inr (hero_free, False)) \<and>
   \<not> hitbox_inset hero_free \<and>
   move 1 corner_map [] hero 1000 (1, 0) = Some (Inr (hero_east, True)) \<and>
   \<not> hitbox_inset hero_east \<and>
   r_left (hitbox hero_east) \<noteq> r_left (collider hero_east)"
  using move_hero_blocked move_hero_free
  by (simp add: numeral_3_eq_3 hitbox_inset_def hero_eq hero_free_def hero_east_def set_pos_def
      py_int_def inflate_def half_trunc_def)

section \<open>Moves that go nowhere\<close>

text \<open>
  C7. A call of \<open>_move\<close> with distance 0, or with a direction of magnitude zero, leaves
  position, collider and hitbox as they are, raises nothing and returns false; the loop
  is not entered, so the result does not depend on the bound on its rounds.
\<close>

theorem move_nothing:
  assumes "distance = 0 \<or> magnitude direction = 0"
  shows "move fuel m entities a distance direction = Some (Inr (a, False))"
proof -
  define d where "d = (if magnitude direction > 0 then normalize_vec direction else direction)"
  have loop: "move_loop fuel m entities d step \<lparr>sprite = a, distance_to_walk = (0, 0), collided = False\<rparr>
        = Some (Inr \<lparr>sprite = a, distance_to_walk = (0, 0), collided = False\<rparr>)" for step
    by (cases fuel) (simp_all add: magnitude_def)
  have "d = (0, 0)" if "magnitude direction = 0"
    using that by (simp add: d_def) (simp add: magnitude_zero_iff)
  with assms have tw: "(\<bar>fst d * distance\<bar>, \<bar>snd d * distance\<bar>) = (0, 0)"
    by auto
  show ?thesis
    unfolding move_def Let_def d_def [symmetric] tw by (simp add: loop)
qed

theorem move_nothing_witness:
  "((0 :: real) = 0 \<or> magnitude (1, 0) = 0) \<and>
   move 0 corner_map [foe] hero 0 (1, 0) = Some (Inr (hero, False)) \<and>
   ((5 :: real) = 0 \<or> magnitude (0, 0) = 0) \<and>
   move 0 corner_map [foe] hero 5 (0, 0) = Some (Inr (hero, False))"
  using move_nothing [of 0 "(1, 0)" 0 corner_map "[foe]" hero]
    move_nothing [of 5 "(0, 0)" 0 corner_map "[foe]" hero]
  by (simp add: magnitude_def)

section \<open>Neighbour counts of the smoother\<close>

text \<open>
  C2. The counts should run over the eight distinct cells around a cell, each once. The
  table \<open>adjacent_directions\<close> has eight entries, but \<open>(0, -1)\<close> (west) stands in it
  twice and \<open>(1, -1)\<close> (south-west) not at all. So one open cell to the west counts as
  two, one open cell to the south-west counts as none, and a wall with five open cells
  around it reaches the threshold of six and is opened by the background pass.
\<close>

theorem neighbor_count_repeats_west:
  "length adjacent_directions = 8 \<and> count_list adjacent_directions (0, -1) = 2 \<and>
   (1, -1) \<notin> set adjacent_directions \<and>
   count_neighbors west_open 62 62 10 10 = (6, 2) \<and>
   count_neighbors south_west_open 62 62 10 10 = (8, 0) \<and>
   count_neighbors five_open 62 62 10 10 = (2, 6) \<and>
   cell_at five_open 10 10 = WALL \<and>
   smooth_cell blank_map background_pass (\<lambda>k. 0) five_open 10 10 (five_open, 0)
     = (set_cell five_open 10 10 AIR, 1)"
  by code_simp

section \<open>The border of the maze\<close>

lemma maze_dims_row: "maze_dims mz w h \<Longrightarrow> 0 \<le> y \<Longrightarrow> y < h \<Longrightarrow> length (mz ! nat y) = nat w"
  by (simp add: maze_dims_def)

lemma maze_dims_set_cell: "maze_dims mz w h \<Longrightarrow> maze_dims (set_cell mz x y v) w h"
proof (cases "nat y < length mz")
  case True
  assume "maze_dims mz w h"
  with True show ?thesis
    unfolding maze_dims_def set_cell_def
    by (auto dest!: set_update_subset_insert [THEN subsetD])
next
  case False
  assume "maze_dims mz w h"
  with False show ?thesis
    by (simp add: set_cell_def list_update_beyond)
qed

lemma cell_at_set_cell:
  assumes "maze_dims mz w h" "is_within_bounds x y w h" "is_within_bounds x' y' w h"
  shows "cell_at (set_cell mz x y v) x' y' = (if x' = x \<and> y' = y then v else cell_at mz x' y')"
proof -
  from assms have len: "nat y < length mz" "nat y' < length mz"
    "nat x < length (mz ! nat y)" "nat x' < length (mz ! nat y')"
    and nn: "0 \<le> x" "0 \<le> y" "0 \<le> x'" "0 \<le> y'"
    by (auto simp: maze_dims_def is_within_bounds_def)
  show ?thesis
  proof (cases "y' = y")
    case True
    with len nn show ?thesis
      by (auto simp: cell_at_def set_cell_def nth_list_update)
  next
    case False
    with nn have "nat y' \<noteq> nat y" by simp
    with len False show ?thesis
      by (simp add: cell_at_def set_cell_def)
  qed
qed


lemma fold_upt_Suc: "fold f [0 ..< Suc n] s = f n (fold f [0 ..< n] s)"
  by simp

lemma fold_preserves: "(\<And>x s. x \<in> set xs \<Longrightarrow> I s \<Longrightarrow> I (f x s)) \<Longrightarrow> I s \<Longrightarrow> I (fold f xs s)"
  by (induction xs arbitrary: s) auto

lemma keeps_walls_refl: "maze_dims mz w h \<Longrightarrow> keeps_walls b w h mz mz"
  by (simp add: keeps_walls_def)

lemma keeps_walls_trans: "keeps_walls b w h m1 m2 \<Longrightarrow> keeps_walls b w h m2 m3 \<Longrightarrow> keeps_walls b w h m1 m3"
  by (simp add: keeps_walls_def)

lemma keeps_walls_inner:
  assumes "maze_dims mz w h" "is_within_bounds x y w h" "\<not> in_border b w h x y"
  shows "keeps_walls b w h mz (set_cell mz x y v)"
  unfolding keeps_walls_def
  using assms by (auto simp: maze_dims_set_cell cell_at_set_cell)

lemma inner_iff:
  "0 \<le> b \<Longrightarrow> is_within_bounds (x - b) (y - b) (w - b * 2) (h - b * 2)
     \<longleftrightarrow> is_within_bounds x y w h \<and> \<not> in_border b w h x y"
  by (auto simp: is_within_bounds_def in_border_def)

lemma widen_step_keeps:
  assumes "0 \<le> b" "maze_dims mz w h" "is_within_bounds x y w h" "\<not> in_border b w h x y"
  shows "keeps_walls b w h mz (widen_step b w h x y d mz)"
proof -
  let ?nx = "x + snd d" and ?ny = "y + fst d"
  let ?mz1 = "(if is_within_bounds (?nx - b) (?ny - b) (w - b * 2) (h - b * 2)
                    \<and> cell_at mz ?nx ?ny = WALL
                 then set_cell mz ?nx ?ny AIR else mz)"
  have 1: "keeps_walls b w h mz ?mz1"
    using assms by (auto simp: inner_iff keeps_walls_inner keeps_walls_refl)
  then have "maze_dims ?mz1 w h" by (simp add: keeps_walls_def)
  then have "keeps_walls b w h ?mz1 (set_cell ?mz1 x y AIR)"
    using assms by (intro keeps_walls_inner)
  with 1 show ?thesis
    unfolding widen_step_def Let_def by (rule keeps_walls_trans)
qed

lemma widen_fold_keeps:
  assumes "0 \<le> b" "is_within_bounds x y w h" "\<not> in_border b w h x y"
  shows "maze_dims mz w h \<Longrightarrow> keeps_walls b w h mz (fold (widen_step b w h x y) ds mz)"
proof (induction ds arbitrary: mz)
  case Nil
  then show ?case by (simp add: keeps_walls_refl)
next
  case (Cons d ds)
  from widen_step_keeps [OF assms(1) Cons.prems assms(2,3)]
  have k: "keeps_walls b w h mz (widen_step b w h x y d mz)" .
  then have "maze_dims (widen_step b w h x y d mz) w h" by (simp add: keeps_walls_def)
  from Cons.IH [OF this] k show ?case
    by (auto intro: keeps_walls_trans)
qed


lemma polish_cell_result:
  assumes b: "0 \<le> b" and dims: "maze_dims mz w h" and y: "int y < h" "\<not> (int y < b \<or> int y \<ge> h - b)"
    and x: "int x < w"
  shows "keeps_walls b w h mz (polish_cell b w h y x mz) \<and>
         (in_border b w h (int x) (int y) \<longrightarrow> cell_at (polish_cell b w h y x mz) (int x) (int y) = WALL)"
proof -
  have inb: "is_within_bounds (int x) (int y) w h"
    using x y by (simp add: is_within_bounds_def)
  show ?thesis
  proof (cases "int x < b \<or> int x \<ge> w - b")
    case True
    then have pc: "polish_cell b w h y x mz = set_cell mz (int x) (int y) WALL"
      by (simp add: polish_cell_def)
    have "keeps_walls b w h mz (set_cell mz (int x) (int y) WALL)"
      unfolding keeps_walls_def using dims inb
      by (auto simp: maze_dims_set_cell cell_at_set_cell)
    moreover have "cell_at (set_cell mz (int x) (int y) WALL) (int x) (int y) = WALL"
      using dims inb by (simp add: cell_at_set_cell)
    ultimately show ?thesis by (simp add: pc)
  next
    case False
    with y have inner: "\<not> in_border b w h (int x) (int y)"
      by (auto simp: in_border_def)
    have "keeps_walls b w h mz (polish_cell b w h y x mz)"
      using False widen_fold_keeps [OF b inb inner dims] dims
      by (simp add: polish_cell_def keeps_walls_refl)
    with inner show ?thesis by simp
  qed
qed

lemma polish_cells_result:
  assumes b: "0 \<le> b" and dims: "maze_dims mz w h" and y: "int y < h" "\<not> (int y < b \<or> int y \<ge> h - b)"
  shows "n \<le> nat w \<Longrightarrow>
         keeps_walls b w h mz (fold (polish_cell b w h y) [0 ..< n] mz) \<and>
         (\<forall>x < n. in_border b w h (int x) (int y)
             \<longrightarrow> cell_at (fold (polish_cell b w h y) [0 ..< n] mz) (int x) (int y) = WALL)"
proof (induction n)
  case 0
  then show ?case using dims by (simp add: keeps_walls_refl)
next
  case (Suc n)
  let ?m1 = "fold (polish_cell b w h y) [0 ..< n] mz"
  from Suc have IH: "keeps_walls b w h mz ?m1"
    "\<forall>x < n. in_border b w h (int x) (int y) \<longrightarrow> cell_at ?m1 (int x) (int y) = WALL"
    by simp_all
  from IH(1) have d1: "maze_dims ?m1 w h" by (simp add: keeps_walls_def)
  from Suc.prems have xw: "int n < w" by linarith
  note step = polish_cell_result [OF b d1 y xw]
  have k: "keeps_walls b w h mz (polish_cell b w h y n ?m1)"
    using IH(1) step by (blast intro: keeps_walls_trans)
  have "cell_at (polish_cell b w h y n ?m1) (int x) (int y) = WALL"
    if "x < Suc n" "in_border b w h (int x) (int y)" for x
  proof (cases "x = n")
    case True
    with step that show ?thesis by simp
  next
    case False
    with that have "x < n" by simp
    with IH(2) that have "cell_at ?m1 (int x) (int y) = WALL" by simp
    moreover have "is_within_bounds (int x) (int y) w h"
      using \<open>x < n\<close> xw y by (simp add: is_within_bounds_def)
    ultimately show ?thesis
      using step that by (auto simp: keeps_walls_def)
  qed
  with k show ?case by simp
qed

lemma polish_row_result:
  assumes b: "0 \<le> b" and dims: "maze_dims mz w h" and y: "int y < h"
  shows "keeps_walls b w h mz (polish_row b w h y mz) \<and>
         (\<forall>x. is_within_bounds x (int y) w h \<and> in_border b w h x (int y)
             \<longrightarrow> cell_at (polish_row b w h y mz) x (int y) = WALL)"
proof (cases "int y < b \<or> int y \<ge> h - b")
  case True
  let ?m1 = "mz[y := replicate (nat w) WALL]"
  have pr: "polish_row b w h y mz = ?m1"
    using True by (simp add: polish_row_def)
  have ylen: "y < length mz"
    using dims y by (simp add: maze_dims_def)
  have d1: "maze_dims ?m1 w h"
    using dims unfolding maze_dims_def
    by (auto dest!: set_update_subset_insert [THEN subsetD])
  have cells: "cell_at ?m1 x' y' = (if y' = int y then WALL else cell_at mz x' y')"
    if "is_within_bounds x' y' w h" for x' y'
    using that ylen by (auto simp: cell_at_def is_within_bounds_def nth_list_update)
  show ?thesis
    unfolding pr keeps_walls_def using d1 cells by simp
next
  case False
  have len: "length (mz ! y) = nat w"
    using dims y by (simp add: maze_dims_def)
  have pr: "polish_row b w h y mz = fold (polish_cell b w h y) [0 ..< nat w] mz"
    using False by (simp add: polish_row_def len)
  from polish_cells_result [OF b dims y False, of "nat w"]
  have r: "keeps_walls b w h mz (polish_row b w h y mz)"
      "\<forall>x < nat w. in_border b w h (int x) (int y) \<longrightarrow> cell_at (polish_row b w h y mz) (int x) (int y) = WALL"
    by (simp_all add: pr)
  have "cell_at (polish_row b w h y mz) x (int y) = WALL"
    if "is_within_bounds x (int y) w h" "in_border b w h x (int y)" for x
  proof -
    from that(1) have "nat x < nat w" "int (nat x) = x"
      by (auto simp: is_within_bounds_def)
    with r(2) that(2) show ?thesis by metis
  qed
  with r(1) show ?thesis by simp
qed


lemma polish_rows_result:
  assumes b: "0 \<le> b" and dims: "maze_dims mz w h"
  shows "n \<le> nat h \<Longrightarrow>
         keeps_walls b w h mz (fold (polish_row b w h) [0 ..< n] mz) \<and>
         (\<forall>y < n. \<forall>x. is_within_bounds x (int y) w h \<and> in_border b w h x (int y)
             \<longrightarrow> cell_at (fold (polish_row b w h) [0 ..< n] mz) x (int y) = WALL)"
proof (induction n)
  case 0
  then show ?case using dims by (simp add: keeps_walls_refl)
next
  case (Suc n)
  let ?m1 = "fold (polish_row b w h) [0 ..< n] mz"
  from Suc have IH: "keeps_walls b w h mz ?m1"
    "\<forall>y < n. \<forall>x. is_within_bounds x (int y) w h \<and> in_border b w h x (int y)
        \<longrightarrow> cell_at ?m1 x (int y) = WALL"
    by simp_all
  from IH(1) have d1: "maze_dims ?m1 w h" by (simp add: keeps_walls_def)
  from Suc.prems have yh: "int n < h" by linarith
  note step = polish_row_result [OF b d1 yh]
  have k: "keeps_walls b w h mz (polish_row b w h n ?m1)"
    using IH(1) step by (blast intro: keeps_walls_trans)
  have "cell_at (polish_row b w h n ?m1) x (int y) = WALL"
    if "y < Suc n" "is_within_bounds x (int y) w h" "in_border b w h x (int y)" for x y
  proof (cases "y = n")
    case True
    with step that show ?thesis by simp
  next
    case False
    with that have "y < n" by simp
    with IH(2) that have "cell_at ?m1 x (int y) = WALL" by simp
    with step that show ?thesis
      by (auto simp: keeps_walls_def)
  qed
  with k show ?case by simp
qed

lemma polish_result:
  assumes "0 \<le> b" "maze_dims mz w h"
  shows "maze_dims (polish b w h mz) w h \<and> border_walls b w h (polish b w h mz)"
proof -
  have len: "length mz = nat h" using assms(2) by (simp add: maze_dims_def)
  from polish_rows_result [OF assms, of "nat h"]
  have r: "keeps_walls b w h mz (polish b w h mz)"
    "\<forall>y < nat h. \<forall>x. is_within_bounds x (int y) w h \<and> in_border b w h x (int y)
        \<longrightarrow> cell_at (polish b w h mz) x (int y) = WALL"
    by (simp_all add: polish_def len)
  have "cell_at (polish b w h mz) x y = WALL"
    if "is_within_bounds x y w h" "in_border b w h x y" for x y
  proof -
    from that(1) have "nat y < nat h" "int (nat y) = y"
      by (auto simp: is_within_bounds_def)
    with r(2) that show ?thesis by metis
  qed
  with r(1) show ?thesis
    by (simp add: keeps_walls_def border_walls_def)
qed

lemma expand_cell_result:
  assumes dims: "maze_dims final (w * 2) (h * 2)" and xy: "is_within_bounds (int x) (int y) w h"
  shows "maze_dims (expand_cell mz y x final) (w * 2) (h * 2) \<and>
         (\<forall>fx fy. is_within_bounds fx fy (w * 2) (h * 2) \<longrightarrow>
            cell_at (expand_cell mz y x final) fx fy =
              (if fx div 2 = int x \<and> fy div 2 = int y then cell_at mz (int x) (int y)
               else cell_at final fx fy))"
proof -
  let ?v = "cell_at mz (int x) (int y)"
  let ?f1 = "set_cell final (int x * 2) (int y * 2) ?v"
  let ?f2 = "set_cell ?f1 (int x * 2 + 1) (int y * 2) ?v"
  let ?f3 = "set_cell ?f2 (int x * 2) (int y * 2 + 1) ?v"
  let ?f4 = "set_cell ?f3 (int x * 2 + 1) (int y * 2 + 1) ?v"
  have eq: "expand_cell mz y x final = ?f4"
    by (simp add: expand_cell_def expand_directions_def)
  have d: "maze_dims ?f1 (w * 2) (h * 2)" "maze_dims ?f2 (w * 2) (h * 2)"
    "maze_dims ?f3 (w * 2) (h * 2)" "maze_dims ?f4 (w * 2) (h * 2)"
    using dims by (simp_all add: maze_dims_set_cell)
  have inb: "is_within_bounds (int x * 2) (int y * 2) (w * 2) (h * 2)"
    "is_within_bounds (int x * 2 + 1) (int y * 2) (w * 2) (h * 2)"
    "is_within_bounds (int x * 2) (int y * 2 + 1) (w * 2) (h * 2)"
    "is_within_bounds (int x * 2 + 1) (int y * 2 + 1) (w * 2) (h * 2)"
    using xy by (auto simp: is_within_bounds_def)
  have "cell_at ?f4 fx fy =
          (if fx div 2 = int x \<and> fy div 2 = int y then ?v else cell_at final fx fy)"
    if "is_within_bounds fx fy (w * 2) (h * 2)" for fx fy
  proof -
    have "fx div 2 = int x \<longleftrightarrow> fx = int x * 2 \<or> fx = int x * 2 + 1"
      "fy div 2 = int y \<longleftrightarrow> fy = int y * 2 \<or> fy = int y * 2 + 1"
      by presburger+
    then show ?thesis
      using that
      by (simp add: cell_at_set_cell [OF d(3) inb(4)] cell_at_set_cell [OF d(2) inb(3)]
          cell_at_set_cell [OF d(1) inb(2)] cell_at_set_cell [OF dims inb(1)]) presburger
  qed
  with d(4) show ?thesis by (simp add: eq)
qed


lemma expand_cells_result:
  assumes dims: "maze_dims final (w * 2) (h * 2)" and y: "0 \<le> int y" "int y < h"
  shows "n \<le> nat w \<Longrightarrow>
         maze_dims (fold (expand_cell mz y) [0 ..< n] final) (w * 2) (h * 2) \<and>
         (\<forall>fx fy. is_within_bounds fx fy (w * 2) (h * 2) \<longrightarrow>
            cell_at (fold (expand_cell mz y) [0 ..< n] final) fx fy =
              (if fx div 2 < int n \<and> fy div 2 = int y then cell_at mz (fx div 2) (int y)
               else cell_at final fx fy))"
proof (induction n)
  case 0
  have "\<not> fx div 2 < 0" if "is_within_bounds fx fy (w * 2) (h * 2)" for fx fy
    using that by (auto simp: is_within_bounds_def)
  then show ?case using dims by simp
next
  case (Suc n)
  let ?f1 = "fold (expand_cell mz y) [0 ..< n] final"
  from Suc have IH: "maze_dims ?f1 (w * 2) (h * 2)"
    "\<forall>fx fy. is_within_bounds fx fy (w * 2) (h * 2) \<longrightarrow>
            cell_at ?f1 fx fy =
              (if fx div 2 < int n \<and> fy div 2 = int y then cell_at mz (fx div 2) (int y)
               else cell_at final fx fy)"
    by simp_all
  from Suc.prems y have xy: "is_within_bounds (int n) (int y) w h"
    by (simp add: is_within_bounds_def)
  note step = expand_cell_result [OF IH(1) xy, of mz]
  have "cell_at (expand_cell mz y n ?f1) fx fy =
          (if fx div 2 < int (Suc n) \<and> fy div 2 = int y then cell_at mz (fx div 2) (int y)
           else cell_at final fx fy)"
    if "is_within_bounds fx fy (w * 2) (h * 2)" for fx fy
    using step IH(2) that by auto
  with step show ?case by simp
qed

lemma expand_row_result:
  assumes dims: "maze_dims final (w * 2) (h * 2)" and mz: "maze_dims mz w h" and y: "int y < h"
  shows "maze_dims (expand_row mz y final) (w * 2) (h * 2) \<and>
         (\<forall>fx fy. is_within_bounds fx fy (w * 2) (h * 2) \<longrightarrow>
            cell_at (expand_row mz y final) fx fy =
              (if fy div 2 = int y then cell_at mz (fx div 2) (int y) else cell_at final fx fy))"
proof -
  have len: "length (mz ! y) = nat w"
    using mz y by (simp add: maze_dims_def)
  have "fx div 2 < int (nat w)" if "is_within_bounds fx fy (w * 2) (h * 2)" for fx fy
    using that by (auto simp: is_within_bounds_def)
  with expand_cells_result [OF dims _ y, of "nat w" mz] show ?thesis
    by (simp add: expand_row_def len)
qed

lemma expand_rows_result:
  assumes dims: "maze_dims final (w * 2) (h * 2)" and mz: "maze_dims mz w h"
  shows "n \<le> nat h \<Longrightarrow>
         maze_dims (fold (expand_row mz) [0 ..< n] final) (w * 2) (h * 2) \<and>
         (\<forall>fx fy. is_within_bounds fx fy (w * 2) (h * 2) \<longrightarrow>
            cell_at (fold (expand_row mz) [0 ..< n] final) fx fy =
              (if fy div 2 < int n then cell_at mz (fx div 2) (fy div 2) else cell_at final fx fy))"
proof (induction n)
  case 0
  have "\<not> fy div 2 < 0" if "is_within_bounds fx fy (w * 2) (h * 2)" for fx fy
    using that by (auto simp: is_within_bounds_def)
  then show ?case using dims by simp
next
  case (Suc n)
  let ?f1 = "fold (expand_row mz) [0 ..< n] final"
  from Suc have IH: "maze_dims ?f1 (w * 2) (h * 2)"
    "\<forall>fx fy. is_within_bounds fx fy (w * 2) (h * 2) \<longrightarrow>
            cell_at ?f1 fx fy =
              (if fy div 2 < int n then cell_at mz (fx div 2) (fy div 2) else cell_at final fx fy)"
    by simp_all
  from Suc.prems have yh: "int n < h" by linarith
  note step = expand_row_result [OF IH(1) mz yh]
  have "cell_at (expand_row mz n ?f1) fx fy =
          (if fy div 2 < int (Suc n) then cell_at mz (fx div 2) (fy div 2) else cell_at final fx fy)"
    if "is_within_bounds fx fy (w * 2) (h * 2)" for fx fy
    using step IH(2) that by auto
  with step show ?case by simp
qed

lemma maze_dims_replicate: "maze_dims (replicate (nat h) (replicate (nat w) v)) w h"
  by (simp add: maze_dims_def)

lemma expand_result:
  assumes "maze_dims mz w h"
  shows "maze_dims (expand w h mz) (w * 2) (h * 2) \<and>
         (\<forall>fx fy. is_within_bounds fx fy (w * 2) (h * 2) \<longrightarrow>
            cell_at (expand w h mz) fx fy = cell_at mz (fx div 2) (fy div 2))"
proof -
  have len: "length mz = nat h" using assms by (simp add: maze_dims_def)
  have "fy div 2 < int (nat h)" if "is_within_bounds fx fy (w * 2) (h * 2)" for fx fy
    using that by (auto simp: is_within_bounds_def)
  with expand_rows_result [OF maze_dims_replicate assms, of "nat h" WALL] show ?thesis
    by (simp add: expand_def len)
qed


lemma setitem2_dims:
  assumes "setitem2 mz r c v = Inr mz'" "maze_dims mz w h"
  shows "maze_dims mz' w h"
proof -
  from assms(1) obtain i j where
    i: "py_index mz r = Some i" and j: "py_index (mz ! nat i) c = Some j"
    and eq: "mz' = mz[nat i := (mz ! nat i)[nat j := v]]"
    by (auto simp: setitem2_def getitem_def setitem_def split: option.splits sum.splits)
  from i have "nat i < length mz"
    by (auto simp: py_index_def split: if_splits)
  with assms(2) show ?thesis
    unfolding eq maze_dims_def
    by (auto dest!: set_update_subset_insert [THEN subsetD])
qed

lemma carve_loop_dims:
  "carve_loop n rnd w h mz dirs k stack = Some (mz', dirs', k') \<Longrightarrow> maze_dims mz w h
     \<Longrightarrow> maze_dims mz' w h"
proof (induction n arbitrary: mz dirs k stack)
  case 0
  then show ?case by (simp split: if_splits)
next
  case (Suc n)
  show ?case
  proof (cases stack)
    case Nil
    with Suc.prems show ?thesis by simp
  next
    case (Cons c rest)
    show ?thesis
    proof (cases "has_unvisited_neighbors mz w h dirs c")
      case False
      with Suc.prems Cons Suc.IH show ?thesis by simp
    next
      case True
      obtain dirs1 k1 where sh: "shuffle rnd k dirs = (dirs1, k1)" by force
      let ?mz1 = "set_cell mz (fst c) (snd c) AIR"
      have d1: "maze_dims ?mz1 w h" using Suc.prems(2) by (rule maze_dims_set_cell)
      show ?thesis
      proof (cases "first_unvisited ?mz1 w h c dirs1")
        case None
        with Suc.prems(1) Cons True sh
        have "carve_loop n rnd w h ?mz1 dirs1 k1 (c # rest) = Some (mz', dirs', k')"
          by simp
        from Suc.IH [OF this d1] show ?thesis .
      next
        case (Some d)
        let ?mz3 = "set_cell (set_cell ?mz1 (fst c + snd d) (snd c + fst d) AIR)
                      (fst c + snd d * 2) (snd c + fst d * 2) HOLE"
        from Suc.prems(1) Cons True sh Some
        have "carve_loop n rnd w h ?mz3 dirs1 k1
                ((fst c + snd d * 2, snd c + fst d * 2) # c # rest) = Some (mz', dirs', k')"
          by (simp add: Let_def)
        moreover have "maze_dims ?mz3 w h"
          using Suc.prems(2) by (simp add: maze_dims_set_cell)
        ultimately show ?thesis by (rule Suc.IH)
      qed
    qed
  qed
qed

lemma carve_dims:
  assumes "carve fuel rnd k w h = Some (Inr (mz, k'))"
  shows "maze_dims mz w h"
proof -
  obtain sx sy where st: "start_cell w h = (sx, sy)" by force
  from assms st obtain mz1 mz2 dirs where
    s: "setitem2 (replicate (nat h) (replicate (nat w) WALL)) sy sx AIR = Inr mz1"
    and l: "carve_loop fuel rnd w h mz1 directions k [(sx, sy)] = Some (mz2, dirs, k')"
    and eq: "mz = set_cell mz2 sx sy HOLE"
    by (auto simp: carve_def Let_def split: sum.splits option.splits prod.splits)
  from setitem2_dims [OF s maze_dims_replicate] have "maze_dims mz1 w h" .
  from carve_loop_dims [OF l this] show ?thesis
    unfolding eq by (rule maze_dims_set_cell)
qed

lemma half_trunc_even: "a mod 2 = 0 \<Longrightarrow> half_trunc a * 2 = a"
  unfolding half_trunc_def by presburger

lemma create_maze_border:
  assumes run: "create_maze fuel rnd k m = Some (Inr (mz, k'))" and b: "0 \<le> border_size m"
  shows "maze_dims mz (width m) (height m) \<and>
         border_walls (border_size m) (width m) (height m) mz"
proof -
  let ?w = "half_trunc (width m)" and ?h = "half_trunc (height m)"
  let ?b = "half_trunc (border_size m)"
  from run have even: "size_rows m mod 2 = 0" "size_cols m mod 2 = 0" "border_size m mod 2 = 0"
    by (auto simp: create_maze_def split: if_splits)
  then have w2: "?w * 2 = width m" and h2: "?h * 2 = height m" and b2: "?b * 2 = border_size m"
    by (simp_all add: half_trunc_even width_def height_def)
  from b b2 have b0: "0 \<le> ?b" by linarith
  from run even obtain hz where c: "carve fuel rnd k ?w ?h = Some (Inr (hz, k'))"
    and eq: "mz = expand ?w ?h (polish ?b ?w ?h hz)"
    by (auto simp: create_maze_def Let_def split: option.splits sum.splits)
  from polish_result [OF b0 carve_dims [OF c]]
  have p: "maze_dims (polish ?b ?w ?h hz) ?w ?h" "border_walls ?b ?w ?h (polish ?b ?w ?h hz)"
    by simp_all
  from expand_result [OF p(1)] w2 h2
  have e: "maze_dims mz (width m) (height m)"
    "\<And>fx fy. is_within_bounds fx fy (width m) (height m) \<Longrightarrow>
        cell_at mz fx fy = cell_at (polish ?b ?w ?h hz) (fx div 2) (fy div 2)"
    by (simp_all add: eq)
  have "cell_at mz fx fy = WALL"
    if inb: "is_within_bounds fx fy (width m) (height m)"
      and bd: "in_border (border_size m) (width m) (height m) fx fy" for fx fy
  proof -
    from inb w2 h2 have "is_within_bounds (fx div 2) (fy div 2) ?w ?h"
      unfolding is_within_bounds_def by presburger
    moreover from bd w2 h2 b2 have "in_border ?b ?w ?h (fx div 2) (fy div 2)"
      unfolding in_border_def by presburger
    ultimately have "cell_at (polish ?b ?w ?h hz) (fx div 2) (fy div 2) = WALL"
      using p(2) by (simp add: border_walls_def)
    with e(2) [OF inb] show ?thesis by simp
  qed
  with e(1) show ?thesis by (simp add: border_walls_def)
qed

lemma same_border_refl: "maze_dims mz w h \<Longrightarrow> same_border b w h mz mz"
  by (simp add: same_border_def)

lemma same_border_trans:
  "same_border b w h m1 m2 \<Longrightarrow> same_border b w h m2 m3 \<Longrightarrow> same_border b w h m1 m3"
  by (simp add: same_border_def)

lemma same_border_inner:
  assumes "maze_dims mz w h" "is_within_bounds x y w h" "\<not> in_border b w h x y"
  shows "same_border b w h mz (set_cell mz x y v)"
  unfolding same_border_def
  using assms by (auto simp: maze_dims_set_cell cell_at_set_cell)

lemma smooth_cell_border:
  assumes dims: "maze_dims (fst st) (width m) (height m)"
    and y: "int y < height m" "\<not> (int y < border_size m \<or> int y \<ge> height m - border_size m)"
    and x: "int x < width m"
  shows "same_border (border_size m) (width m) (height m) (fst st)
           (fst (smooth_cell m ps rnd mz y x st))"
proof (cases "int x < border_size m \<or> int x \<ge> width m - border_size m")
  case True
  then show ?thesis using dims by (simp add: smooth_cell_def same_border_refl)
next
  case False
  obtain temp k where st: "st = (temp, k)" by force
  have inb: "is_within_bounds (int x) (int y) (width m) (height m)"
    using x y by (simp add: is_within_bounds_def)
  have inner: "\<not> in_border (border_size m) (width m) (height m) (int x) (int y)"
    using False y by (auto simp: in_border_def)
  have "same_border (border_size m) (width m) (height m) temp (set_cell temp (int x) (int y) v)" for v
    using dims inb inner unfolding st by (intro same_border_inner) simp_all
  moreover have "same_border (border_size m) (width m) (height m) temp temp"
    using dims unfolding st by (simp add: same_border_refl)
  ultimately show ?thesis
    using False unfolding st smooth_cell_def
    by (simp add: Let_def split: prod.splits)
qed

lemma smooth_cells_border:
  assumes y: "int y < height m" "\<not> (int y < border_size m \<or> int y \<ge> height m - border_size m)"
  shows "n \<le> nat (width m) \<Longrightarrow> maze_dims (fst st) (width m) (height m) \<Longrightarrow>
         same_border (border_size m) (width m) (height m) (fst st)
           (fst (fold (smooth_cell m ps rnd mz y) [0 ..< n] st))"
proof (induction n)
  case 0
  then show ?case by (simp add: same_border_refl)
next
  case (Suc n)
  let ?s1 = "fold (smooth_cell m ps rnd mz y) [0 ..< n] st"
  from Suc have IH: "same_border (border_size m) (width m) (height m) (fst st) (fst ?s1)"
    by simp
  then have d1: "maze_dims (fst ?s1) (width m) (height m)" by (simp add: same_border_def)
  from Suc.prems have xw: "int n < width m" by linarith
  from smooth_cell_border [OF d1 y xw] IH show ?case
    by (auto intro: same_border_trans)
qed

lemma smooth_row_border:
  assumes mz: "maze_dims mz (width m) (height m)" and y: "int y < height m"
    and dims: "maze_dims (fst st) (width m) (height m)"
  shows "same_border (border_size m) (width m) (height m) (fst st)
           (fst (smooth_row m ps rnd mz y st))"
proof (cases "int y < border_size m \<or> int y \<ge> height m - border_size m")
  case True
  then show ?thesis using dims by (simp add: smooth_row_def same_border_refl)
next
  case False
  have len: "length (mz ! y) = nat (width m)"
    using mz y by (simp add: maze_dims_def)
  from smooth_cells_border [OF y False _ dims, of "nat (width m)"] False show ?thesis
    by (simp add: smooth_row_def len)
qed

lemma smooth_rows_border:
  assumes mz: "maze_dims mz (width m) (height m)"
  shows "n \<le> nat (height m) \<Longrightarrow> maze_dims (fst st) (width m) (height m) \<Longrightarrow>
         same_border (border_size m) (width m) (height m) (fst st)
           (fst (fold (smooth_row m ps rnd mz) [0 ..< n] st))"
proof (induction n)
  case 0
  then show ?case by (simp add: same_border_refl)
next
  case (Suc n)
  let ?s1 = "fold (smooth_row m ps rnd mz) [0 ..< n] st"
  from Suc have IH: "same_border (border_size m) (width m) (height m) (fst st) (fst ?s1)"
    by simp
  then have d1: "maze_dims (fst ?s1) (width m) (height m)" by (simp add: same_border_def)
  from Suc.prems have yh: "int n < height m" by linarith
  from smooth_row_border [OF mz yh d1] IH show ?case
    by (auto intro: same_border_trans)
qed

lemma smooth_pass_border:
  assumes "maze_dims (fst st) (width m) (height m)"
  shows "same_border (border_size m) (width m) (height m) (fst st) (fst (smooth_pass m ps rnd st))"
proof -
  have len: "length (fst st) = nat (height m)" using assms by (simp add: maze_dims_def)
  from smooth_rows_border [OF assms _ assms, of "nat (height m)"] show ?thesis
    by (simp add: smooth_pass_def len)
qed

lemma smooth_passes_border:
  "maze_dims (fst st) (width m) (height m) \<Longrightarrow>
     same_border (border_size m) (width m) (height m) (fst st)
       (fst ((smooth_pass m ps rnd ^^ n) st))"
proof (induction n)
  case 0
  then show ?case by (simp add: same_border_refl)
next
  case (Suc n)
  then have IH: "same_border (border_size m) (width m) (height m) (fst st)
       (fst ((smooth_pass m ps rnd ^^ n) st))" by simp
  then have "maze_dims (fst ((smooth_pass m ps rnd ^^ n) st)) (width m) (height m)"
    by (simp add: same_border_def)
  from smooth_pass_border [OF this] IH show ?case
    by (auto intro: same_border_trans)
qed

lemma smooth_maze_border:
  assumes "maze_dims mz (width m) (height m)"
  shows "same_border (border_size m) (width m) (height m) mz (fst (smooth_maze m rnd mz ps k))"
  using smooth_passes_border [where st = "(mz, k)" and m = m and ps = ps and rnd = rnd
      and n = "nat (ammount ps)"] assms
  by (simp add: smooth_maze_def)

lemma same_border_walls:
  "same_border b w h mz mz' \<Longrightarrow> border_walls b w h mz \<Longrightarrow> border_walls b w h mz'"
  by (simp add: same_border_def border_walls_def)

lemma carve_tall: "carve 23 even_draws 0 4 12 = Some (Inr (tall_carved, 33))"
  by code_simp

lemma polish_tall: "polish 1 4 12 tall_carved = tall_polished"
  by code_simp

lemma expand_tall: "expand 4 12 tall_polished = tall_maze"
  by code_simp

lemma create_tall: "create_maze 23 even_draws 0 tall_map = Some (Inr (tall_maze, 33))"
proof -
  have "half_trunc (width tall_map) = 4" "half_trunc (height tall_map) = 12"
    "half_trunc (border_size tall_map) = 1" "size_rows tall_map mod 2 = 0"
    "size_cols tall_map mod 2 = 0" "border_size tall_map mod 2 = 0"
    by (simp_all add: tall_map_def Map_init_def width_def height_def half_trunc_def)
  then show ?thesis
    by (simp add: create_maze_def carve_tall polish_tall expand_tall)
qed

lemma generate_mazes_border:
  assumes run: "generate_mazes fuel rnd k m = Some (Inr ((bg, fg), k3))" and b: "0 \<le> border_size m"
  shows "maze_dims fg (width m) (height m) \<and> maze_dims bg (width m) (height m) \<and>
         border_walls (border_size m) (width m) (height m) fg \<and>
         border_walls (border_size m) (width m) (height m) bg"
proof -
  let ?p1 = "\<lparr>ammount = 3, stop_air = 6, stop_wall = 10, air_neighbors = 4, wall_neighbors = 0\<rparr>"
  let ?p2 = "\<lparr>ammount = 5, stop_air = 7, stop_wall = 10, air_neighbors = 3, wall_neighbors = 0\<rparr>"
  let ?p3 = "\<lparr>ammount = 3, stop_air = 0, stop_wall = 4, air_neighbors = 6, wall_neighbors = 2\<rparr>"
  from run obtain mz0 k0 where c: "create_maze fuel rnd k m = Some (Inr (mz0, k0))"
    by (auto simp: generate_mazes_def split: option.splits sum.splits)
  define s1 where "s1 = smooth_maze m rnd mz0 ?p1 k0"
  define s2 where "s2 = smooth_maze m rnd (fst s1) ?p2 (snd s1)"
  define s3 where "s3 = smooth_maze m rnd (fst s2) ?p3 (snd s2)"
  from run c have fg: "fg = fst s2" and bg: "bg = fst s3"
    by (auto simp add: generate_mazes_def s1_def s2_def s3_def split_beta Let_def)
  note c0 = create_maze_border [OF c b]
  from c0 have b1: "same_border (border_size m) (width m) (height m) mz0 (fst s1)"
    unfolding s1_def by (intro smooth_maze_border) simp
  then have "maze_dims (fst s1) (width m) (height m)" by (simp add: same_border_def)
  then have b2: "same_border (border_size m) (width m) (height m) (fst s1) (fst s2)"
    unfolding s2_def by (rule smooth_maze_border)
  then have "maze_dims (fst s2) (width m) (height m)" by (simp add: same_border_def)
  then have b3: "same_border (border_size m) (width m) (height m) (fst s2) (fst s3)"
    unfolding s3_def by (rule smooth_maze_border)
  from c0 b1 have w1: "border_walls (border_size m) (width m) (height m) (fst s1)"
    by (blast intro: same_border_walls)
  with b2 have w2: "border_walls (border_size m) (width m) (height m) (fst s2)"
    by (blast intro: same_border_walls)
  with b3 have w3: "border_walls (border_size m) (width m) (height m) (fst s3)"
    by (blast intro: same_border_walls)
  from b2 b3 w2 w3 show ?thesis
    unfolding fg bg by (simp add: same_border_def)
qed

lemma tall_dims: "maze_dims tall_maze (width tall_map) (height tall_map)"
  by code_simp

text \<open>
  C9. Every cell of the border margin of a generated maze is a wall. The maze that
  \<^verbatim>\<open>__create_maze\<close> returns has the size of the map and walls on all of its margin,
  whatever the carving left there; a smoothing returns a maze of the same size that
  agrees with its argument on every cell of the margin; so foreground and background of
  \<^verbatim>\<open>generate\<close> have walls on the margin, for every sequence of draws.
\<close>

theorem border_is_wall:
  "(create_maze fuel rnd k m = Some (Inr (mz, k')) \<and> 0 \<le> border_size m \<longrightarrow>
      maze_dims mz (width m) (height m) \<and>
      border_walls (border_size m) (width m) (height m) mz) \<and>
   (maze_dims mz1 (width m) (height m) \<longrightarrow>
      same_border (border_size m) (width m) (height m) mz1 (fst (smooth_maze m rnd mz1 ps k1))) \<and>
   (generate_mazes fuel rnd k m = Some (Inr ((bg, fg), k3)) \<and> 0 \<le> border_size m \<longrightarrow>
      border_walls (border_size m) (width m) (height m) fg \<and>
      border_walls (border_size m) (width m) (height m) bg)"
  using create_maze_border [of fuel rnd k m mz k'] smooth_maze_border [of mz1 m rnd ps k1]
    generate_mazes_border [of fuel rnd k m bg fg k3]
  by blast

theorem border_is_wall_witness:
  "(create_maze 23 even_draws 0 tall_map = Some (Inr (tall_maze, 33)) \<and> 0 \<le> border_size tall_map) \<and>
   maze_dims tall_maze (width tall_map) (height tall_map) \<and>
   border_walls (border_size tall_map) (width tall_map) (height tall_map) tall_maze \<and>
   same_border (border_size tall_map) (width tall_map) (height tall_map) tall_maze
     (fst (smooth_maze tall_map even_draws tall_maze background_pass 33)) \<and>
   (\<exists>bg fg k3. generate_mazes 23 even_draws 0 tall_map = Some (Inr ((bg, fg), k3)) \<and>
      border_walls (border_size tall_map) (width tall_map) (height tall_map) fg \<and>
      border_walls (border_size tall_map) (width tall_map) (height tall_map) bg)"
proof -
  have b: "0 \<le> border_size tall_map"
    by (simp add: tall_map_def Map_init_def)
  obtain bg fg k3 where g: "generate_mazes 23 even_draws 0 tall_map = Some (Inr ((bg, fg), k3))"
    by (simp add: generate_mazes_def create_tall split_beta)
  note inst = border_is_wall [where fuel = 23 and rnd = even_draws and k = 0 and m = tall_map
      and mz = tall_maze and k' = 33 and ?mz1.0 = tall_maze and ps = background_pass and ?k1.0 = 33
      and bg = bg and fg = fg and ?k3.0 = k3]
  from inst create_tall b tall_dims g show ?thesis
    by blast
qed

section \<open>Connectivity of the carved maze\<close>

lemma open_cell_dims:
  assumes "maze_dims mz w h"
  shows "open_cell mz p \<longleftrightarrow>
           is_within_bounds (fst p) (snd p) w h \<and> cell_at mz (fst p) (snd p) \<noteq> WALL"
proof (cases "0 \<le> snd p \<and> snd p < h")
  case True
  then have "nat (snd p) < length mz" using assms by (simp add: maze_dims_def)
  then have "length (mz ! nat (snd p)) = nat w" using assms by (simp add: maze_dims_def)
  with True \<open>nat (snd p) < length mz\<close> show ?thesis
    by (auto simp: open_cell_def is_within_bounds_def)
next
  case False
  then have "\<not> (0 \<le> snd p \<and> nat (snd p) < length mz)"
    using assms by (auto simp: maze_dims_def)
  with False show ?thesis
    by (auto simp: open_cell_def is_within_bounds_def)
qed

lemma reach_mono:
  assumes "reach mz s p" and "\<And>q. open_cell mz q \<Longrightarrow> open_cell mz' q"
  shows "reach mz' s p"
  using assms(1)
proof (induction rule: reach.induct)
  case start
  then show ?case by (simp add: assms(2) reach.start)
next
  case (step p q)
  then show ?case by (blast intro: reach.step assms(2))
qed

lemma connected_grow:
  assumes conn: "connected_from mz s"
    and mono: "\<And>q. open_cell mz q \<Longrightarrow> open_cell mz' q"
    and new: "\<And>q. open_cell mz' q \<Longrightarrow> \<not> open_cell mz q \<Longrightarrow> \<exists>p. open_cell mz p \<and> adjacent p q"
  shows "connected_from mz' s"
  unfolding connected_from_def
proof (intro allI impI)
  fix q assume q: "open_cell mz' q"
  show "reach mz' s q"
  proof (cases "open_cell mz q")
    case True
    with conn have "reach mz s q" unfolding connected_from_def by blast
    then show ?thesis using mono by (rule reach_mono)
  next
    case False
    from new [OF q False] obtain p where p: "open_cell mz p" "adjacent p q" by blast
    with conn have "reach mz s p" unfolding connected_from_def by blast
    then have "reach mz' s p" using mono by (rule reach_mono)
    then show ?thesis using p(2) q by (rule reach.step)
  qed
qed

lemma open_cell_set_cell:
  assumes "maze_dims mz w h" "is_within_bounds x y w h"
  shows "open_cell (set_cell mz x y v) p \<longleftrightarrow>
           (if p = (x, y) then v \<noteq> WALL else open_cell mz p)"
proof -
  have d: "maze_dims (set_cell mz x y v) w h"
    using assms(1) by (rule maze_dims_set_cell)
  show ?thesis
    unfolding open_cell_dims [OF d] open_cell_dims [OF assms(1)]
    using assms by (cases p) (auto simp: cell_at_set_cell)
qed

lemma connected_open_next:
  assumes dims: "maze_dims mz w h" and conn: "connected_from mz s"
    and p: "open_cell mz p" and adj: "adjacent p q" and q: "is_within_bounds (fst q) (snd q) w h"
    and v: "v \<noteq> WALL"
  shows "connected_from (set_cell mz (fst q) (snd q) v) s"
proof (rule connected_grow [OF conn])
  fix r assume "open_cell mz r"
  then show "open_cell (set_cell mz (fst q) (snd q) v) r"
    using v by (simp add: open_cell_set_cell [OF dims q])
next
  fix r assume "open_cell (set_cell mz (fst q) (snd q) v) r" "\<not> open_cell mz r"
  then have "r = q"
    by (auto simp: open_cell_set_cell [OF dims q] split: if_splits)
  with p adj show "\<exists>p. open_cell mz p \<and> adjacent p r" by blast
qed

lemma connected_same_open:
  assumes "connected_from mz s" and "\<And>q. open_cell mz' q \<longleftrightarrow> open_cell mz q"
  shows "connected_from mz' s"
  by (rule connected_grow [OF assms(1)]) (simp_all add: assms(2))

lemma connected_overwrite:
  assumes dims: "maze_dims mz w h" and conn: "connected_from mz s"
    and p: "open_cell mz p" and v: "v \<noteq> WALL"
  shows "connected_from (set_cell mz (fst p) (snd p) v) s"
proof -
  from p have inb: "is_within_bounds (fst p) (snd p) w h"
    by (simp add: open_cell_dims [OF dims])
  show ?thesis
    by (rule connected_same_open [OF conn]) (use p v in \<open>auto simp: open_cell_set_cell [OF dims inb]\<close>)
qed


lemma shuffle_from_set:
  "i < length xs \<Longrightarrow> set (fst (shuffle_from i rnd k xs)) = set xs \<and>
     length (fst (shuffle_from i rnd k xs)) = length xs"
proof (induction i arbitrary: k xs)
  case 0
  then show ?case by simp
next
  case (Suc i)
  let ?j = "rnd k mod Suc (Suc i)"
  let ?ys = "xs[Suc i := xs ! ?j, ?j := xs ! Suc i]"
  have j: "?j < length xs"
    using Suc.prems by (meson less_Suc_eq_le less_le_trans mod_less_divisor not_less zero_less_Suc Suc_leI)
  have "set ?ys = set xs" "length ?ys = length xs"
    using Suc.prems j by (simp_all add: set_swap)
  moreover have "i < length ?ys" using Suc.prems by simp
  ultimately show ?case
    using Suc.IH [of ?ys "Suc k"] by (simp add: Let_def)
qed

lemma shuffle_set: "set (fst (shuffle rnd k xs)) = set xs"
proof (cases xs)
  case Nil
  then show ?thesis by (simp add: shuffle_def)
next
  case (Cons x xs')
  then show ?thesis
    using shuffle_from_set [of "length xs - 1" xs rnd k] by (simp add: shuffle_def)
qed

lemma has_unvisited_iff:
  "has_unvisited_neighbors mz w h ds p \<longleftrightarrow> (\<exists>d\<in>set ds. unvisited mz w h p d)"
  by (induction ds) auto

lemma first_unvisited_Some:
  "first_unvisited mz w h p ds = Some d \<Longrightarrow> d \<in> set ds \<and> unvisited mz w h p d"
  by (induction ds) (auto split: if_splits)

lemma first_unvisited_None:
  "first_unvisited mz w h p ds = None \<longleftrightarrow> (\<forall>d\<in>set ds. \<not> unvisited mz w h p d)"
  by (induction ds) auto

lemma directions_unit: "d \<in> set directions \<Longrightarrow> \<bar>fst d\<bar> + \<bar>snd d\<bar> = 1"
  by (auto simp: directions_def)

text \<open>One push of the carving loop.\<close>

lemma carve_push:
  assumes dims: "maze_dims mz w h" and conn: "connected_from mz s"
    and c: "open_cell mz c" and d: "\<bar>fst d\<bar> + \<bar>snd d\<bar> = 1"
    and n: "is_within_bounds (fst c + snd d * 2) (snd c + fst d * 2) w h"
  defines "mz3 \<equiv> set_cell (set_cell (set_cell mz (fst c) (snd c) AIR)
                      (fst c + snd d) (snd c + fst d) AIR)
                      (fst c + snd d * 2) (snd c + fst d * 2) HOLE"
  shows "maze_dims mz3 w h" and "connected_from mz3 s"
    and "open_cell mz3 (fst c + snd d * 2, snd c + fst d * 2)"
    and "\<And>q. open_cell mz q \<Longrightarrow> open_cell mz3 q"
proof -
  let ?mz1 = "set_cell mz (fst c) (snd c) AIR"
  let ?mz2 = "set_cell ?mz1 (fst c + snd d) (snd c + fst d) AIR"
  have cin: "is_within_bounds (fst c) (snd c) w h"
    using c by (simp add: open_cell_dims [OF dims])
  have bin: "is_within_bounds (fst c + snd d) (snd c + fst d) w h"
    using cin n d unfolding is_within_bounds_def by auto
  have d1: "maze_dims ?mz1 w h" using dims by (rule maze_dims_set_cell)
  have d2: "maze_dims ?mz2 w h" using d1 by (rule maze_dims_set_cell)
  have c1: "connected_from ?mz1 s"
    using connected_overwrite [OF dims conn c, of AIR] by simp
  have o1: "open_cell ?mz1 q" if "open_cell mz q" for q
    using that by (simp add: open_cell_set_cell [OF dims cin])
  have a1: "adjacent c (fst c + snd d, snd c + fst d)" using d by (simp add: adjacent_def)
  have c2: "connected_from ?mz2 s"
    using connected_open_next [OF d1 c1 o1 [OF c] a1, of AIR] bin by simp
  have o2: "open_cell ?mz2 q" if "open_cell ?mz1 q" for q
    using that by (simp add: open_cell_set_cell [OF d1 bin])
  have ob: "open_cell ?mz2 (fst c + snd d, snd c + fst d)"
    by (simp add: open_cell_set_cell [OF d1 bin])
  have a2: "adjacent (fst c + snd d, snd c + fst d) (fst c + snd d * 2, snd c + fst d * 2)"
    using d by (simp add: adjacent_def)
  show "connected_from mz3 s"
    using connected_open_next [OF d2 c2 ob a2, of HOLE] n by (simp add: mz3_def)
  show "open_cell mz3 q" if "open_cell mz q" for q
    using o2 [OF o1 [OF that]] by (simp add: mz3_def open_cell_set_cell [OF d2 n])
  show "open_cell mz3 (fst c + snd d * 2, snd c + fst d * 2)"
    by (simp add: mz3_def open_cell_set_cell [OF d2 n])
  show "maze_dims mz3 w h"
    unfolding mz3_def using d2 by (rule maze_dims_set_cell)
qed

lemma carve_loop_connected:
  "carve_loop n rnd w h mz dirs k stack = Some (mz', dirs', k') \<Longrightarrow>
   maze_dims mz w h \<Longrightarrow> set dirs = set directions \<Longrightarrow> (\<forall>p\<in>set stack. open_cell mz p) \<Longrightarrow>
   connected_from mz s \<Longrightarrow>
     maze_dims mz' w h \<and> connected_from mz' s \<and> (\<forall>q. open_cell mz q \<longrightarrow> open_cell mz' q)"
proof (induction n arbitrary: mz dirs k stack)
  case 0
  then show ?case by (simp split: if_splits)
next
  case (Suc n)
  show ?case
  proof (cases stack)
    case Nil
    with Suc.prems show ?thesis by simp
  next
    case (Cons c rest)
    with Suc.prems(4) have c: "open_cell mz c" and rest: "\<forall>p\<in>set rest. open_cell mz p"
      by simp_all
    show ?thesis
    proof (cases "has_unvisited_neighbors mz w h dirs c")
      case False
      with Suc.prems(1) Cons
      have "carve_loop n rnd w h mz dirs k rest = Some (mz', dirs', k')" by simp
      from Suc.IH [OF this Suc.prems(2,3) rest Suc.prems(5)] show ?thesis .
    next
      case True
      obtain dirs1 k1 where sh: "shuffle rnd k dirs = (dirs1, k1)" by force
      have ds1: "set dirs1 = set directions"
        using shuffle_set [of rnd k dirs] sh Suc.prems(3) by simp
      let ?mz1 = "set_cell mz (fst c) (snd c) AIR"
      have cin: "is_within_bounds (fst c) (snd c) w h"
        using c by (simp add: open_cell_dims [OF Suc.prems(2)])
      have d1: "maze_dims ?mz1 w h" using Suc.prems(2) by (rule maze_dims_set_cell)
      have o1: "open_cell ?mz1 q \<longleftrightarrow> open_cell mz q" for q
        using c by (auto simp: open_cell_set_cell [OF Suc.prems(2) cin])
      show ?thesis
      proof (cases "first_unvisited ?mz1 w h c dirs1")
        case None
        with Suc.prems(1) Cons True sh
        have run: "carve_loop n rnd w h ?mz1 dirs1 k1 (c # rest) = Some (mz', dirs', k')"
          by simp
        have "connected_from ?mz1 s"
          using connected_overwrite [OF Suc.prems(2) Suc.prems(5) c, of AIR] by simp
        moreover have "\<forall>p\<in>set (c # rest). open_cell ?mz1 p"
          using c rest by (simp add: o1)
        ultimately show ?thesis
          using Suc.IH [OF run d1 ds1] by (simp add: o1)
      next
        case (Some d)
        let ?n = "(fst c + snd d * 2, snd c + fst d * 2)"
        let ?mz3 = "set_cell (set_cell ?mz1 (fst c + snd d) (snd c + fst d) AIR)
                      (fst c + snd d * 2) (snd c + fst d * 2) HOLE"
        from Suc.prems(1) Cons True sh Some
        have run: "carve_loop n rnd w h ?mz3 dirs1 k1 (?n # c # rest) = Some (mz', dirs', k')"
          by (simp add: Let_def)
        from first_unvisited_Some [OF Some] ds1
        have d: "\<bar>fst d\<bar> + \<bar>snd d\<bar> = 1" and nin: "is_within_bounds (fst ?n) (snd ?n) w h"
          by (auto simp: directions_unit unvisited_def Let_def)
        from nin have nin': "is_within_bounds (fst c + snd d * 2) (snd c + fst d * 2) w h"
          by simp
        note push = carve_push [OF Suc.prems(2) Suc.prems(5) c d nin']
        have "\<forall>p\<in>set (?n # c # rest). open_cell ?mz3 p"
          using push(3,4) c rest by simp
        from Suc.IH [OF run push(1) ds1 this push(2)] push(4) show ?thesis
          by blast
      qed
    qed
  qed
qed


lemma start_cell_written:
  assumes "setitem2 (replicate (nat h) (replicate (nat w) WALL)) (half_trunc h) (half_trunc w) AIR
             = Inr mz1"
  shows "is_within_bounds (half_trunc w) (half_trunc h) w h \<and>
         mz1 = set_cell (replicate (nat h) (replicate (nat w) WALL)) (half_trunc w) (half_trunc h) AIR"
proof -
  let ?mz0 = "replicate (nat h) (replicate (nat w) WALL)"
  from assms obtain i j where
    i: "py_index ?mz0 (half_trunc h) = Some i" and j: "py_index (?mz0 ! nat i) (half_trunc w) = Some j"
    and eq: "mz1 = ?mz0[nat i := (?mz0 ! nat i)[nat j := AIR]]"
    by (auto simp: setitem2_def getitem_def setitem_def split: option.splits sum.splits)
  have h: "0 < h"
  proof (rule ccontr)
    assume "\<not> 0 < h"
    then have "nat h = 0" by simp
    with i show False by (auto simp: py_index_def split: if_splits)
  qed
  then have hh: "0 \<le> half_trunc h" "half_trunc h < h"
    by (auto simp: half_trunc_def)
  with i have i': "i = half_trunc h"
    by (auto simp: py_index_def split: if_splits)
  have row: "?mz0 ! nat i = replicate (nat w) WALL"
    using hh i' by simp
  have w: "0 < w"
  proof (rule ccontr)
    assume "\<not> 0 < w"
    then have "nat w = 0" by simp
    with j row show False by (auto simp: py_index_def split: if_splits)
  qed
  then have ww: "0 \<le> half_trunc w" "half_trunc w < w"
    by (auto simp: half_trunc_def)
  with j row have j': "j = half_trunc w"
    by (auto simp: py_index_def split: if_splits)
  from hh ww eq show ?thesis
    by (simp add: is_within_bounds_def set_cell_def i' j')
qed

lemma connected_single:
  assumes dims: "maze_dims mz w h" and s: "is_within_bounds (fst s) (snd s) w h"
    and walls: "\<And>q. \<not> open_cell mz q"
  shows "connected_from (set_cell mz (fst s) (snd s) AIR) s"
  unfolding connected_from_def
proof (intro allI impI)
  fix q assume "open_cell (set_cell mz (fst s) (snd s) AIR) q"
  then have "q = s" and "open_cell (set_cell mz (fst s) (snd s) AIR) s"
    using walls by (auto simp: open_cell_set_cell [OF dims s] split: if_splits)
  then show "reach (set_cell mz (fst s) (snd s) AIR) s q"
    by (simp add: reach.start)
qed

lemma all_walls_closed: "\<not> open_cell (replicate (nat h) (replicate (nat w) WALL)) q"
  by (simp add: open_cell_dims [OF maze_dims_replicate] cell_at_def is_within_bounds_def)

lemma carve_connected:
  assumes "carve fuel rnd k w h = Some (Inr (mz, k'))"
  shows "maze_dims mz w h \<and> open_cell mz (start_cell w h) \<and> connected_from mz (start_cell w h)"
proof -
  let ?mz0 = "replicate (nat h) (replicate (nat w) WALL)"
  let ?s = "(half_trunc w, half_trunc h)"
  from assms obtain mz1 mz2 dirs where
    s: "setitem2 ?mz0 (half_trunc h) (half_trunc w) AIR = Inr mz1"
    and l: "carve_loop fuel rnd w h mz1 directions k [?s] = Some (mz2, dirs, k')"
    and eq: "mz = set_cell mz2 (half_trunc w) (half_trunc h) HOLE"
    by (auto simp: carve_def start_cell_def Let_def split: sum.splits option.splits prod.splits)
  from start_cell_written [OF s] have sin: "is_within_bounds (half_trunc w) (half_trunc h) w h"
    and mz1: "mz1 = set_cell ?mz0 (half_trunc w) (half_trunc h) AIR"
    by simp_all
  have d1: "maze_dims mz1 w h"
    unfolding mz1 using maze_dims_replicate by (rule maze_dims_set_cell)
  have c1: "connected_from mz1 ?s"
    using connected_single [OF maze_dims_replicate, of ?s w h] sin all_walls_closed
    by (simp add: mz1)
  have o1: "open_cell mz1 ?s"
    unfolding mz1 by (simp add: open_cell_set_cell [OF maze_dims_replicate sin])
  from carve_loop_connected [OF l d1 _ _ c1] o1
  have r: "maze_dims mz2 w h" "connected_from mz2 ?s" "open_cell mz2 ?s"
    by simp_all
  from connected_overwrite [OF r(1,2,3), of HOLE] maze_dims_set_cell [OF r(1)]
  show ?thesis
    by (simp add: eq start_cell_def open_cell_set_cell [OF r(1) sin])
qed


lemma wall_row_closed:
  assumes "nat y < length mz" and "\<forall>c\<in>set (mz ! nat y). c = WALL"
  shows "\<not> open_cell mz (x, y)"
  using assms by (auto simp: open_cell_def cell_at_def)

lemma tall_polished_row3: "\<not> open_cell tall_polished (x, 3)"
  by (rule wall_row_closed) (simp_all add: tall_polished_def)

lemma tall_polished_reach: "reach tall_polished (2, 6) p \<Longrightarrow> 4 \<le> snd p"
proof (induction rule: reach.induct)
  case start
  then show ?case by simp
next
  case (step p q)
  then have "3 \<le> snd q" by (auto simp: adjacent_def)
  moreover have "snd q \<noteq> 3"
    using step.hyps(3) tall_polished_row3 [of "fst q"] by (cases q) auto
  ultimately show ?case by simp
qed

lemma tall_maze_row7: "\<not> open_cell tall_maze (x, 7)"
  by (rule wall_row_closed) (simp_all add: tall_maze_def)

lemma tall_maze_reach: "reach tall_maze (4, 12) p \<Longrightarrow> 8 \<le> snd p"
proof (induction rule: reach.induct)
  case start
  then show ?case by simp
next
  case (step p q)
  then have "7 \<le> snd q" by (auto simp: adjacent_def)
  moreover have "snd q \<noteq> 7"
    using step.hyps(3) tall_maze_row7 [of "fst q"] by (cases q) auto
  ultimately show ?case by simp
qed

subsection \<open>The carving loop ends\<close>

lemma wall_cells_subset: "wall_cells mz w h \<subseteq> {0 ..< w} \<times> {0 ..< h}"
  by (auto simp: wall_cells_def is_within_bounds_def)

lemma finite_wall_cells: "finite (wall_cells mz w h)"
  by (rule finite_subset [OF wall_cells_subset]) simp

lemma card_wall_cells: "card (wall_cells mz w h) \<le> nat w * nat h"
proof -
  have "card (wall_cells mz w h) \<le> card ({0 ..< w} \<times> {0 ..< h})"
    by (rule card_mono [OF _ wall_cells_subset]) simp
  then show ?thesis by (simp add: card_cartesian_product)
qed

lemma wall_cells_set_cell:
  assumes "maze_dims mz w h" "is_within_bounds x y w h" "v \<noteq> WALL"
  shows "wall_cells (set_cell mz x y v) w h = wall_cells mz w h - {(x, y)}"
  using assms by (auto simp: wall_cells_def cell_at_set_cell split: if_splits)

lemma card_wall_cells_less:
  assumes "maze_dims mz w h" "is_within_bounds x y w h" "v \<noteq> WALL" "cell_at mz x y = WALL"
  shows "card (wall_cells (set_cell mz x y v) w h) < card (wall_cells mz w h)"
proof -
  have "(x, y) \<in> wall_cells mz w h"
    using assms by (simp add: wall_cells_def)
  then show ?thesis
    unfolding wall_cells_set_cell [OF assms(1-3)]
    by (rule card_Diff1_less [OF finite_wall_cells])
qed

lemma card_wall_cells_le:
  assumes "maze_dims mz w h" "is_within_bounds x y w h" "v \<noteq> WALL"
  shows "card (wall_cells (set_cell mz x y v) w h) \<le> card (wall_cells mz w h)"
  unfolding wall_cells_set_cell [OF assms]
  by (rule card_Diff1_le)

lemma unvisited_after_mark:
  assumes dims: "maze_dims mz w h" and c: "is_within_bounds (fst c) (snd c) w h"
    and d: "\<bar>fst d\<bar> + \<bar>snd d\<bar> = 1"
  shows "unvisited (set_cell mz (fst c) (snd c) AIR) w h c d \<longleftrightarrow> unvisited mz w h c d"
proof -
  have "fst c + snd d * 2 \<noteq> fst c \<or> snd c + fst d * 2 \<noteq> snd c"
    using d by auto
  then show ?thesis
    unfolding unvisited_def Let_def
    using cell_at_set_cell [OF dims c, of "fst c + snd d * 2" "snd c + fst d * 2" AIR]
    by auto
qed

lemma carve_loop_enough:
  "2 * card (wall_cells mz w h) + length stack \<le> n \<Longrightarrow> maze_dims mz w h \<Longrightarrow>
   set dirs = set directions \<Longrightarrow> (\<forall>p\<in>set stack. is_within_bounds (fst p) (snd p) w h) \<Longrightarrow>
     carve_loop n rnd w h mz dirs k stack \<noteq> None"
proof (induction n arbitrary: mz dirs k stack)
  case 0
  then show ?case by simp
next
  case (Suc n)
  show ?case
  proof (cases stack)
    case Nil
    then show ?thesis by simp
  next
    case (Cons c rest)
    with Suc.prems(4) have cin: "is_within_bounds (fst c) (snd c) w h"
      and rest: "\<forall>p\<in>set rest. is_within_bounds (fst p) (snd p) w h"
      by simp_all
    show ?thesis
    proof (cases "has_unvisited_neighbors mz w h dirs c")
      case False
      have "2 * card (wall_cells mz w h) + length rest \<le> n"
        using Suc.prems(1) Cons by simp
      from Suc.IH [OF this Suc.prems(2,3) rest] False Cons show ?thesis by simp
    next
      case True
      obtain dirs1 k1 where sh: "shuffle rnd k dirs = (dirs1, k1)" by force
      have ds1: "set dirs1 = set directions"
        using shuffle_set [of rnd k dirs] sh Suc.prems(3) by simp
      let ?mz1 = "set_cell mz (fst c) (snd c) AIR"
      have d1: "maze_dims ?mz1 w h" using Suc.prems(2) by (rule maze_dims_set_cell)
      from True obtain d0 where "d0 \<in> set dirs" "unvisited mz w h c d0"
        by (auto simp: has_unvisited_iff)
      then have "d0 \<in> set dirs1" "unvisited ?mz1 w h c d0"
        using ds1 Suc.prems(3) unvisited_after_mark [OF Suc.prems(2) cin, of d0]
        by (auto simp: directions_unit)
      then obtain d where some: "first_unvisited ?mz1 w h c dirs1 = Some d"
        using first_unvisited_None [of ?mz1 w h c dirs1] by (cases "first_unvisited ?mz1 w h c dirs1") auto
      let ?nx = "fst c + snd d * 2" and ?ny = "snd c + fst d * 2"
      let ?mz2 = "set_cell ?mz1 (fst c + snd d) (snd c + fst d) AIR"
      let ?mz3 = "set_cell ?mz2 ?nx ?ny HOLE"
      from first_unvisited_Some [OF some] ds1
      have d: "\<bar>fst d\<bar> + \<bar>snd d\<bar> = 1" and nin: "is_within_bounds ?nx ?ny w h"
        and nw: "cell_at ?mz1 ?nx ?ny = WALL"
        by (auto simp: directions_unit unvisited_def Let_def)
      have bin: "is_within_bounds (fst c + snd d) (snd c + fst d) w h"
        using cin nin d unfolding is_within_bounds_def by auto
      have d2: "maze_dims ?mz2 w h" using d1 by (rule maze_dims_set_cell)
      have d3: "maze_dims ?mz3 w h" using d2 by (rule maze_dims_set_cell)
      have "?nx \<noteq> fst c + snd d \<or> ?ny \<noteq> snd c + fst d" using d by auto
      then have nw2: "cell_at ?mz2 ?nx ?ny = WALL"
        using nw cell_at_set_cell [OF d1 bin nin, of AIR] by auto
      have "card (wall_cells ?mz3 w h) < card (wall_cells ?mz2 w h)"
        using d2 nin _ nw2 by (rule card_wall_cells_less) simp
      also have "\<dots> \<le> card (wall_cells ?mz1 w h)"
        using d1 bin by (rule card_wall_cells_le) simp
      also have "\<dots> \<le> card (wall_cells mz w h)"
        using Suc.prems(2) cin by (rule card_wall_cells_le) simp
      finally have "2 * card (wall_cells ?mz3 w h) + length ((?nx, ?ny) # c # rest) \<le> n"
        using Suc.prems(1) Cons by simp
      moreover have "\<forall>p\<in>set ((?nx, ?ny) # c # rest). is_within_bounds (fst p) (snd p) w h"
        using nin cin rest by simp
      ultimately have "carve_loop n rnd w h ?mz3 dirs1 k1 ((?nx, ?ny) # c # rest) \<noteq> None"
        using d3 ds1 by (intro Suc.IH)
      with True Cons sh some show ?thesis
        by (simp add: Let_def)
    qed
  qed
qed

lemma carve_returns: "carve (2 * (nat w * nat h) + 1) rnd k w h \<noteq> None"
proof (cases "setitem2 (replicate (nat h) (replicate (nat w) WALL)) (half_trunc h) (half_trunc w) AIR")
  case (Inl e)
  then show ?thesis by (simp add: carve_def start_cell_def)
next
  case (Inr mz1)
  let ?mz0 = "replicate (nat h) (replicate (nat w) WALL)"
  from start_cell_written [OF Inr] have sin: "is_within_bounds (half_trunc w) (half_trunc h) w h"
    and mz1: "mz1 = set_cell ?mz0 (half_trunc w) (half_trunc h) AIR"
    by simp_all
  have d1: "maze_dims mz1 w h"
    unfolding mz1 using maze_dims_replicate by (rule maze_dims_set_cell)
  have "2 * card (wall_cells mz1 w h) + length [(half_trunc w, half_trunc h)]
          \<le> 2 * (nat w * nat h) + 1"
    using card_wall_cells [of mz1 w h] by simp
  from carve_loop_enough [OF this d1, of directions rnd k] sin
  have "carve_loop (2 * (nat w * nat h) + 1) rnd w h mz1 directions k [(half_trunc w, half_trunc h)]
          \<noteq> None"
    by simp
  with Inr show ?thesis
    by (auto simp: carve_def start_cell_def)
qed

section \<open>Connectivity after the border and widening pass\<close>

lemma grows_refl: "grows mz mz"
  by (simp add: grows_def)

lemma grows_trans: "grows m1 m2 \<Longrightarrow> grows m2 m3 \<Longrightarrow> grows m1 m3"
  by (simp add: grows_def)

lemma inner_same_open:
  assumes "inner_connected b w h s mz" "maze_dims mz' w h"
    and "\<And>q. open_cell mz' q \<longleftrightarrow> open_cell mz q"
  shows "inner_connected b w h s mz' \<and> grows mz mz'"
  using assms connected_same_open [of mz s mz']
  by (simp add: inner_connected_def inner_open_def grows_def)

lemma inner_closed:
  assumes "inner_connected b w h s mz" "is_within_bounds x y w h" "in_border b w h x y"
  shows "cell_at mz x y = WALL"
proof -
  from assms have "\<not> open_cell mz (x, y)"
    by (auto simp: inner_connected_def inner_open_def)
  with assms show ?thesis
    by (simp add: inner_connected_def open_cell_dims [of mz w h])
qed

lemma wall_row_same:
  assumes I: "inner_connected b w h s mz" and y: "int y < h" "int y < b \<or> int y \<ge> h - b"
  shows "inner_connected b w h s (mz[y := replicate (nat w) WALL]) \<and>
         grows mz (mz[y := replicate (nat w) WALL])"
proof -
  let ?m1 = "mz[y := replicate (nat w) WALL]"
  from I have dims: "maze_dims mz w h" by (simp add: inner_connected_def)
  have ylen: "y < length mz"
    using dims y by (simp add: maze_dims_def)
  have d1: "maze_dims ?m1 w h"
    using dims unfolding maze_dims_def
    by (auto dest!: set_update_subset_insert [THEN subsetD])
  have cells: "cell_at ?m1 x' y' = cell_at mz x' y'" if "is_within_bounds x' y' w h" for x' y'
  proof (cases "y' = int y")
    case True
    with that y have "in_border b w h x' y'" by (auto simp: in_border_def)
    from inner_closed [OF I that this] that True ylen show ?thesis
      by (auto simp: cell_at_def is_within_bounds_def)
  next
    case False
    with that ylen show ?thesis
      by (auto simp: cell_at_def is_within_bounds_def nth_list_update)
  qed
  have "open_cell ?m1 q \<longleftrightarrow> open_cell mz q" for q
    unfolding open_cell_dims [OF d1] open_cell_dims [OF dims] using cells by auto
  with inner_same_open [OF I d1] show ?thesis by simp
qed

lemma wall_cell_same:
  assumes I: "inner_connected b w h s mz" and xy: "is_within_bounds x y w h" "in_border b w h x y"
  shows "inner_connected b w h s (set_cell mz x y WALL) \<and> grows mz (set_cell mz x y WALL)"
proof -
  from I have dims: "maze_dims mz w h" by (simp add: inner_connected_def)
  have "open_cell (set_cell mz x y WALL) q \<longleftrightarrow> open_cell mz q" for q
    using inner_closed [OF I xy] xy
    by (auto simp: open_cell_set_cell [OF dims xy(1)] open_cell_dims [OF dims])
  with inner_same_open [OF I maze_dims_set_cell [OF dims]] show ?thesis by simp
qed

lemma widen_step_connected:
  assumes b: "0 \<le> b" and I: "inner_connected b w h s mz"
    and xy: "is_within_bounds x y w h" "\<not> in_border b w h x y" and o: "open_cell mz (x, y)"
    and d: "\<bar>fst d\<bar> + \<bar>snd d\<bar> = 1 \<or>
            (\<bar>fst d\<bar> = 1 \<and> \<bar>snd d\<bar> = 1 \<and>
             (is_within_bounds (x + snd d) y w h \<and> \<not> in_border b w h (x + snd d) y
                \<longrightarrow> open_cell mz (x + snd d, y)))"
  defines "mz' \<equiv> widen_step b w h x y d mz"
  shows "inner_connected b w h s mz'" and "grows mz mz'"
    and "is_within_bounds (x + snd d) (y + fst d) w h \<and> \<not> in_border b w h (x + snd d) (y + fst d)
           \<Longrightarrow> open_cell mz' (x + snd d, y + fst d)"
proof -
  let ?nx = "x + snd d" and ?ny = "y + fst d"
  let ?c = "is_within_bounds (?nx - b) (?ny - b) (w - b * 2) (h - b * 2) \<and> cell_at mz ?nx ?ny = WALL"
  let ?m1 = "if ?c then set_cell mz ?nx ?ny AIR else mz"
  from I have dims: "maze_dims mz w h" and conn: "connected_from mz s"
    and inn: "inner_open b w h mz"
    by (simp_all add: inner_connected_def)
  have eq: "mz' = set_cell ?m1 x y AIR"
    by (simp add: mz'_def widen_step_def Let_def)
  have m1: "inner_connected b w h s ?m1 \<and> grows mz ?m1 \<and>
            (is_within_bounds ?nx ?ny w h \<and> \<not> in_border b w h ?nx ?ny \<longrightarrow> open_cell ?m1 (?nx, ?ny))"
  proof (cases ?c)
    case False
    then have e: "?m1 = mz" by (rule if_not_P)
    from False have "is_within_bounds ?nx ?ny w h \<and> \<not> in_border b w h ?nx ?ny \<longrightarrow> open_cell mz (?nx, ?ny)"
      using inner_iff [OF b, of ?nx ?ny w h] by (auto simp: open_cell_dims [OF dims])
    with I show ?thesis unfolding e by (simp add: grows_refl)
  next
    case True
    then have e: "?m1 = set_cell mz ?nx ?ny AIR" by (rule if_P)
    from True have nin: "is_within_bounds ?nx ?ny w h" and ninner: "\<not> in_border b w h ?nx ?ny"
      using inner_iff [OF b, of ?nx ?ny w h] by simp_all
    have "\<exists>p. open_cell mz p \<and> adjacent p (?nx, ?ny)"
    proof (cases "\<bar>fst d\<bar> + \<bar>snd d\<bar> = 1")
      case True
      then have "adjacent (x, y) (?nx, ?ny)" by (simp add: adjacent_def)
      with o show ?thesis by blast
    next
      case False
      with d have dd: "\<bar>fst d\<bar> = 1" "\<bar>snd d\<bar> = 1"
        and imp: "is_within_bounds ?nx y w h \<and> \<not> in_border b w h ?nx y \<longrightarrow> open_cell mz (?nx, y)"
        by simp_all
      have "is_within_bounds ?nx y w h" "\<not> in_border b w h ?nx y"
        using nin ninner xy by (auto simp: is_within_bounds_def in_border_def)
      with imp have "open_cell mz (?nx, y)" by simp
      moreover have "adjacent (?nx, y) (?nx, ?ny)" using dd by (simp add: adjacent_def)
      ultimately show ?thesis by blast
    qed
    then obtain p where p: "open_cell mz p" "adjacent p (?nx, ?ny)" by blast
    have c1: "connected_from (set_cell mz ?nx ?ny AIR) s"
      using connected_open_next [OF dims conn p, of AIR] nin by simp
    have op: "open_cell (set_cell mz ?nx ?ny AIR) q \<longleftrightarrow> q = (?nx, ?ny) \<or> open_cell mz q" for q
      by (auto simp: open_cell_set_cell [OF dims nin])
    have "inner_open b w h (set_cell mz ?nx ?ny AIR)"
      using inn ninner unfolding inner_open_def op by auto
    with c1 op show ?thesis
      unfolding e by (simp add: inner_connected_def maze_dims_set_cell [OF dims] grows_def)
  qed
  then have I1: "inner_connected b w h s ?m1" and g1: "grows mz ?m1" by simp_all
  then have d1: "maze_dims ?m1 w h" and o1: "open_cell ?m1 (x, y)"
    using o by (simp_all add: inner_connected_def grows_def)
  have op2: "open_cell (set_cell ?m1 x y AIR) q \<longleftrightarrow> open_cell ?m1 q" for q
    using o1 by (auto simp: open_cell_set_cell [OF d1 xy(1)])
  have dm: "maze_dims (set_cell ?m1 x y AIR) w h"
    using d1 by (rule maze_dims_set_cell)
  from inner_same_open [OF I1 dm op2]
  have r: "inner_connected b w h s mz'" "grows ?m1 mz'"
    by (simp_all add: eq)
  show "inner_connected b w h s mz'" by (rule r(1))
  show "grows mz mz'" using g1 r(2) by (rule grows_trans)
  show "open_cell mz' (?nx, ?ny)"
    if "is_within_bounds ?nx ?ny w h \<and> \<not> in_border b w h ?nx ?ny"
    using that m1 r(2) by (simp add: grows_def)
qed


lemma widen_axis:
  assumes "0 \<le> b" "inner_connected b w h s mz" "is_within_bounds x y w h" "\<not> in_border b w h x y"
    "open_cell mz (x, y)" "\<bar>fst d\<bar> + \<bar>snd d\<bar> = 1"
  shows "inner_connected b w h s (widen_step b w h x y d mz) \<and>
         grows mz (widen_step b w h x y d mz) \<and>
         (is_within_bounds (x + snd d) (y + fst d) w h \<and> \<not> in_border b w h (x + snd d) (y + fst d)
            \<longrightarrow> open_cell (widen_step b w h x y d mz) (x + snd d, y + fst d))"
  using widen_step_connected [OF assms(1-5), of d] assms(6) by blast

lemma widen_diagonal:
  assumes "0 \<le> b" "inner_connected b w h s mz" "is_within_bounds x y w h" "\<not> in_border b w h x y"
    "open_cell mz (x, y)" "\<bar>fst d\<bar> = 1" "\<bar>snd d\<bar> = 1"
    "is_within_bounds (x + snd d) y w h \<and> \<not> in_border b w h (x + snd d) y
       \<longrightarrow> open_cell mz (x + snd d, y)"
  shows "inner_connected b w h s (widen_step b w h x y d mz) \<and>
         grows mz (widen_step b w h x y d mz)"
  using widen_step_connected [OF assms(1-5), of d] assms(6-8) by blast

lemma widen_all_connected:
  assumes b: "0 \<le> b" and I: "inner_connected b w h s mz"
    and xy: "is_within_bounds x y w h" "\<not> in_border b w h x y" and o: "open_cell mz (x, y)"
  shows "inner_connected b w h s (fold (widen_step b w h x y) adjacent_directions mz) \<and>
         grows mz (fold (widen_step b w h x y) adjacent_directions mz)"
proof -
  define m1 where "m1 = widen_step b w h x y (0, 1) mz"
  define m2 where "m2 = widen_step b w h x y (0, -1) m1"
  define m3 where "m3 = widen_step b w h x y (1, 0) m2"
  define m4 where "m4 = widen_step b w h x y (1, 1) m3"
  define m5 where "m5 = widen_step b w h x y (0, -1) m4"
  define m6 where "m6 = widen_step b w h x y (-1, 0) m5"
  define m7 where "m7 = widen_step b w h x y (-1, 1) m6"
  define m8 where "m8 = widen_step b w h x y (-1, -1) m7"
  have eq: "fold (widen_step b w h x y) adjacent_directions mz = m8"
    by (simp add: adjacent_directions_def m1_def m2_def m3_def m4_def m5_def m6_def m7_def m8_def)
  from widen_axis [OF b I xy o, of "(0, 1)"]
  have s1: "inner_connected b w h s m1" "grows mz m1"
    and east: "is_within_bounds (x + 1) y w h \<and> \<not> in_border b w h (x + 1) y \<longrightarrow> open_cell m1 (x + 1, y)"
    by (simp_all add: m1_def)
  from s1(2) o have o1: "open_cell m1 (x, y)" by (simp add: grows_def)
  from widen_axis [OF b s1(1) xy o1, of "(0, -1)"]
  have s2: "inner_connected b w h s m2" "grows m1 m2"
    and west: "is_within_bounds (x - 1) y w h \<and> \<not> in_border b w h (x - 1) y \<longrightarrow> open_cell m2 (x - 1, y)"
    by (simp_all add: m2_def)
  from s2(2) o1 have o2: "open_cell m2 (x, y)" by (simp add: grows_def)
  from widen_axis [OF b s2(1) xy o2, of "(1, 0)"]
  have s3: "inner_connected b w h s m3" "grows m2 m3"
    by (simp_all add: m3_def)
  from s3(2) o2 have o3: "open_cell m3 (x, y)" by (simp add: grows_def)
  have east3: "is_within_bounds (x + 1) y w h \<and> \<not> in_border b w h (x + 1) y \<longrightarrow> open_cell m3 (x + 1, y)"
    using east s2(2) s3(2) by (auto simp: grows_def)
  from widen_diagonal [OF b s3(1) xy o3, of "(1, 1)"] east3
  have s4: "inner_connected b w h s m4" "grows m3 m4"
    by (simp_all add: m4_def)
  from s4(2) o3 have o4: "open_cell m4 (x, y)" by (simp add: grows_def)
  from widen_axis [OF b s4(1) xy o4, of "(0, -1)"]
  have s5: "inner_connected b w h s m5" "grows m4 m5"
    by (simp_all add: m5_def)
  from s5(2) o4 have o5: "open_cell m5 (x, y)" by (simp add: grows_def)
  from widen_axis [OF b s5(1) xy o5, of "(-1, 0)"]
  have s6: "inner_connected b w h s m6" "grows m5 m6"
    by (simp_all add: m6_def)
  from s6(2) o5 have o6: "open_cell m6 (x, y)" by (simp add: grows_def)
  have east6: "is_within_bounds (x + 1) y w h \<and> \<not> in_border b w h (x + 1) y \<longrightarrow> open_cell m6 (x + 1, y)"
    using east3 s4(2) s5(2) s6(2) by (auto simp: grows_def)
  from widen_diagonal [OF b s6(1) xy o6, of "(-1, 1)"] east6
  have s7: "inner_connected b w h s m7" "grows m6 m7"
    by (simp_all add: m7_def)
  from s7(2) o6 have o7: "open_cell m7 (x, y)" by (simp add: grows_def)
  have west7: "is_within_bounds (x - 1) y w h \<and> \<not> in_border b w h (x - 1) y \<longrightarrow> open_cell m7 (x - 1, y)"
    using west s3(2) s4(2) s5(2) s6(2) s7(2) by (auto simp: grows_def)
  from widen_diagonal [OF b s7(1) xy o7, of "(-1, -1)"] west7
  have s8: "inner_connected b w h s m8" "grows m7 m8"
    by (simp_all add: m8_def)
  have "grows mz m8"
    using s1(2) s2(2) s3(2) s4(2) s5(2) s6(2) s7(2) s8(2) by (auto simp: grows_def)
  with s8(1) show ?thesis by (simp add: eq)
qed


lemma polish_cell_connected:
  assumes b: "0 \<le> b" and I: "inner_connected b w h s mz"
    and y: "int y < h" "\<not> (int y < b \<or> int y \<ge> h - b)" and x: "int x < w"
  shows "inner_connected b w h s (polish_cell b w h y x mz) \<and> grows mz (polish_cell b w h y x mz)"
proof -
  have inb: "is_within_bounds (int x) (int y) w h"
    using x y by (simp add: is_within_bounds_def)
  from I have dims: "maze_dims mz w h" by (simp add: inner_connected_def)
  show ?thesis
  proof (cases "int x < b \<or> int x \<ge> w - b")
    case True
    then have "in_border b w h (int x) (int y)" by (auto simp: in_border_def)
    from wall_cell_same [OF I inb this] True show ?thesis
      by (simp add: polish_cell_def)
  next
    case False
    with y have inner: "\<not> in_border b w h (int x) (int y)"
      by (auto simp: in_border_def)
    show ?thesis
    proof (cases "cell_at mz (int x) (int y) = HOLE")
      case True
      then have "open_cell mz (int x, int y)"
        using inb by (simp add: open_cell_dims [OF dims])
      from widen_all_connected [OF b I inb inner this] True False show ?thesis
        by (simp add: polish_cell_def)
    next
      case no: False
      with False I show ?thesis
        by (simp add: polish_cell_def grows_refl)
    qed
  qed
qed

lemma polish_cells_connected:
  assumes b: "0 \<le> b" and I: "inner_connected b w h s mz"
    and y: "int y < h" "\<not> (int y < b \<or> int y \<ge> h - b)"
  shows "n \<le> nat w \<Longrightarrow>
         inner_connected b w h s (fold (polish_cell b w h y) [0 ..< n] mz) \<and>
         grows mz (fold (polish_cell b w h y) [0 ..< n] mz)"
proof (induction n)
  case 0
  then show ?case using I by (simp add: grows_refl)
next
  case (Suc n)
  let ?m1 = "fold (polish_cell b w h y) [0 ..< n] mz"
  from Suc have IH: "inner_connected b w h s ?m1" "grows mz ?m1" by simp_all
  from Suc.prems have xw: "int n < w" by linarith
  from polish_cell_connected [OF b IH(1) y xw] IH(2) show ?case
    by (auto intro: grows_trans)
qed

lemma polish_row_connected:
  assumes b: "0 \<le> b" and I: "inner_connected b w h s mz" and y: "int y < h"
  shows "inner_connected b w h s (polish_row b w h y mz) \<and> grows mz (polish_row b w h y mz)"
proof (cases "int y < b \<or> int y \<ge> h - b")
  case True
  from wall_row_same [OF I y True] True show ?thesis
    by (simp add: polish_row_def)
next
  case False
  from I have dims: "maze_dims mz w h" by (simp add: inner_connected_def)
  have len: "length (mz ! y) = nat w"
    using dims y by (simp add: maze_dims_def)
  from polish_cells_connected [OF b I y False, of "nat w"] False show ?thesis
    by (simp add: polish_row_def len)
qed

lemma polish_rows_connected:
  assumes b: "0 \<le> b" and I: "inner_connected b w h s mz"
  shows "n \<le> nat h \<Longrightarrow>
         inner_connected b w h s (fold (polish_row b w h) [0 ..< n] mz) \<and>
         grows mz (fold (polish_row b w h) [0 ..< n] mz)"
proof (induction n)
  case 0
  then show ?case using I by (simp add: grows_refl)
next
  case (Suc n)
  let ?m1 = "fold (polish_row b w h) [0 ..< n] mz"
  from Suc have IH: "inner_connected b w h s ?m1" "grows mz ?m1" by simp_all
  from Suc.prems have yh: "int n < h" by linarith
  from polish_row_connected [OF b IH(1) yh] IH(2) show ?case
    by (auto intro: grows_trans)
qed

lemma polish_connected:
  assumes "0 \<le> b" "inner_connected b w h s mz"
  shows "inner_connected b w h s (polish b w h mz) \<and> grows mz (polish b w h mz)"
proof -
  from assms(2) have "length mz = nat h"
    by (simp add: inner_connected_def maze_dims_def)
  with polish_rows_connected [OF assms, of "nat h"] show ?thesis
    by (simp add: polish_def)
qed

subsection \<open>Sizes whose carved cells stay clear of the border\<close>

lemma inner_open_set_cell:
  assumes "maze_dims mz w h" "is_within_bounds x y w h" "\<not> in_border b w h x y"
    and "inner_open b w h mz"
  shows "inner_open b w h (set_cell mz x y v)"
  using assms(3,4) unfolding inner_open_def
  by (auto simp: open_cell_set_cell [OF assms(1,2)] split: if_splits)

lemma odd_inner:
  assumes "w mod 2 = 1" "h mod 2 = 1" "x mod 2 = 1" "y mod 2 = 1" "is_within_bounds x y w h"
  shows "\<not> in_border 1 w h x y"
proof -
  from assms have "1 \<le> x" "x \<le> w - 2" "1 \<le> y" "y \<le> h - 2"
    unfolding is_within_bounds_def by presburger+
  then show ?thesis by (simp add: in_border_def)
qed

lemma between_inner:
  assumes "\<not> in_border 1 w h x y" "\<not> in_border 1 w h (x + dx * 2) (y + dy * 2)"
    and "\<bar>dy\<bar> + \<bar>dx\<bar> = (1::int)"
  shows "\<not> in_border 1 w h (x + dx) (y + dy)"
  using assms unfolding in_border_def by auto

lemma carve_loop_inner:
  "carve_loop n rnd w h mz dirs k stack = Some (mz', dirs', k') \<Longrightarrow>
   maze_dims mz w h \<Longrightarrow> set dirs = set directions \<Longrightarrow> w mod 2 = 1 \<Longrightarrow> h mod 2 = 1 \<Longrightarrow>
   (\<forall>p\<in>set stack. fst p mod 2 = 1 \<and> snd p mod 2 = 1 \<and> is_within_bounds (fst p) (snd p) w h) \<Longrightarrow>
   inner_open 1 w h mz \<Longrightarrow> inner_open 1 w h mz'"
proof (induction n arbitrary: mz dirs k stack)
  case 0
  then show ?case by (simp split: if_splits)
next
  case (Suc n)
  show ?case
  proof (cases stack)
    case Nil
    with Suc.prems show ?thesis by simp
  next
    case (Cons c rest)
    with Suc.prems(6) have c: "fst c mod 2 = 1" "snd c mod 2 = 1"
      and cin: "is_within_bounds (fst c) (snd c) w h"
      and rest: "\<forall>p\<in>set rest. fst p mod 2 = 1 \<and> snd p mod 2 = 1 \<and>
                   is_within_bounds (fst p) (snd p) w h"
      by simp_all
    have ci: "\<not> in_border 1 w h (fst c) (snd c)"
      using Suc.prems(4,5) c cin by (rule odd_inner)
    show ?thesis
    proof (cases "has_unvisited_neighbors mz w h dirs c")
      case False
      with Suc.prems(1) Cons
      have "carve_loop n rnd w h mz dirs k rest = Some (mz', dirs', k')" by simp
      from Suc.IH [OF this Suc.prems(2,3,4,5) rest Suc.prems(7)] show ?thesis .
    next
      case True
      obtain dirs1 k1 where sh: "shuffle rnd k dirs = (dirs1, k1)" by force
      have ds1: "set dirs1 = set directions"
        using shuffle_set [of rnd k dirs] sh Suc.prems(3) by simp
      let ?mz1 = "set_cell mz (fst c) (snd c) AIR"
      have d1: "maze_dims ?mz1 w h" using Suc.prems(2) by (rule maze_dims_set_cell)
      have i1: "inner_open 1 w h ?mz1"
        using Suc.prems(2) cin ci Suc.prems(7) by (rule inner_open_set_cell)
      show ?thesis
      proof (cases "first_unvisited ?mz1 w h c dirs1")
        case None
        with Suc.prems(1) Cons True sh
        have run: "carve_loop n rnd w h ?mz1 dirs1 k1 (c # rest) = Some (mz', dirs', k')"
          by simp
        from Suc.IH [OF run d1 ds1 Suc.prems(4,5) _ i1] Suc.prems(6) Cons show ?thesis
          by simp
      next
        case (Some d)
        let ?nx = "fst c + snd d * 2" and ?ny = "snd c + fst d * 2"
        let ?mz2 = "set_cell ?mz1 (fst c + snd d) (snd c + fst d) AIR"
        let ?mz3 = "set_cell ?mz2 ?nx ?ny HOLE"
        from Suc.prems(1) Cons True sh Some
        have run: "carve_loop n rnd w h ?mz3 dirs1 k1 ((?nx, ?ny) # c # rest) = Some (mz', dirs', k')"
          by (simp add: Let_def)
        from first_unvisited_Some [OF Some] ds1
        have d: "\<bar>fst d\<bar> + \<bar>snd d\<bar> = 1" and nin: "is_within_bounds ?nx ?ny w h"
          by (auto simp: directions_unit unvisited_def Let_def)
        have nodd: "?nx mod 2 = 1" "?ny mod 2 = 1"
          using c by presburger+
        have ni: "\<not> in_border 1 w h ?nx ?ny"
          using Suc.prems(4,5) nodd nin by (rule odd_inner)
        have bi: "\<not> in_border 1 w h (fst c + snd d) (snd c + fst d)"
          using ci ni d by (rule between_inner)
        have bin: "is_within_bounds (fst c + snd d) (snd c + fst d) w h"
          using cin nin d unfolding is_within_bounds_def by auto
        have d2: "maze_dims ?mz2 w h" using d1 by (rule maze_dims_set_cell)
        have d3: "maze_dims ?mz3 w h" using d2 by (rule maze_dims_set_cell)
        have i2: "inner_open 1 w h ?mz2"
          using d1 bin bi i1 by (rule inner_open_set_cell)
        have i3: "inner_open 1 w h ?mz3"
          using d2 nin ni i2 by (rule inner_open_set_cell)
        have st: "\<forall>p\<in>set ((?nx, ?ny) # c # rest). fst p mod 2 = 1 \<and> snd p mod 2 = 1 \<and>
                   is_within_bounds (fst p) (snd p) w h"
          using nodd nin c cin rest by simp
        from Suc.IH [OF run d3 ds1 Suc.prems(4,5) st i3] show ?thesis .
      qed
    qed
  qed
qed

lemma carve_inner:
  assumes run: "carve fuel rnd k w h = Some (Inr (mz, k'))"
    and w: "w mod 4 = 3" and h: "h mod 4 = 3"
  shows "inner_open 1 w h mz"
proof -
  let ?mz0 = "replicate (nat h) (replicate (nat w) WALL)"
  let ?s = "(half_trunc w, half_trunc h)"
  from run obtain mz1 mz2 dirs where
    s: "setitem2 ?mz0 (half_trunc h) (half_trunc w) AIR = Inr mz1"
    and l: "carve_loop fuel rnd w h mz1 directions k [?s] = Some (mz2, dirs, k')"
    and eq: "mz = set_cell mz2 (half_trunc w) (half_trunc h) HOLE"
    by (auto simp: carve_def start_cell_def Let_def split: sum.splits option.splits prod.splits)
  from start_cell_written [OF s] have sin: "is_within_bounds (half_trunc w) (half_trunc h) w h"
    and mz1: "mz1 = set_cell ?mz0 (half_trunc w) (half_trunc h) AIR"
    by simp_all
  have odd: "w mod 2 = 1" "h mod 2 = 1" using w h by presburger+
  from sin have pos: "0 \<le> w" "0 \<le> h" by (simp_all add: is_within_bounds_def)
  then have hs: "half_trunc w = w div 2" "half_trunc h = h div 2"
    by (simp_all add: half_trunc_def)
  have sodd: "half_trunc w mod 2 = 1" "half_trunc h mod 2 = 1"
    unfolding hs using w h by presburger+
  have si: "\<not> in_border 1 w h (half_trunc w) (half_trunc h)"
    using odd sodd sin by (rule odd_inner)
  have i0: "inner_open 1 w h ?mz0"
    by (simp add: inner_open_def all_walls_closed)
  have d1: "maze_dims mz1 w h"
    unfolding mz1 using maze_dims_replicate by (rule maze_dims_set_cell)
  have i1: "inner_open 1 w h mz1"
    unfolding mz1 using maze_dims_replicate sin si i0 by (rule inner_open_set_cell)
  have i2: "inner_open 1 w h mz2"
    using carve_loop_inner [OF l d1 _ odd _ i1] sodd sin by simp
  have d2: "maze_dims mz2 w h" using carve_loop_dims [OF l d1] .
  show ?thesis
    unfolding eq using d2 sin si i2 by (rule inner_open_set_cell)
qed

subsection \<open>Expansion keeps the paths\<close>

lemma open_cell_expand:
  assumes "maze_dims mz w h"
  shows "open_cell (expand w h mz) r \<longleftrightarrow> open_cell mz (fst r div 2, snd r div 2)"
proof -
  from expand_result [OF assms] have d: "maze_dims (expand w h mz) (w * 2) (h * 2)"
    and c: "\<And>fx fy. is_within_bounds fx fy (w * 2) (h * 2) \<Longrightarrow>
              cell_at (expand w h mz) fx fy = cell_at mz (fx div 2) (fy div 2)"
    by simp_all
  have b: "is_within_bounds (fst r) (snd r) (w * 2) (h * 2) \<longleftrightarrow>
           is_within_bounds (fst r div 2) (snd r div 2) w h"
    unfolding is_within_bounds_def by auto
  show ?thesis
    unfolding open_cell_dims [OF d] open_cell_dims [OF assms] using b c by auto
qed

lemma block_reach:
  assumes op: "\<And>r. open_cell fm r \<longleftrightarrow> open_cell mz (fst r div 2, snd r div 2)"
    and r0: "reach fm s r0"
    and same: "fst r div 2 = fst r0 div 2" "snd r div 2 = snd r0 div 2"
  shows "reach fm s r"
proof -
  have o0: "open_cell fm r0" using r0 by (cases rule: reach.cases) auto
  let ?r1 = "(fst r, snd r0)"
  have o1: "open_cell fm ?r1" using o0 same by (simp add: op)
  have o2: "open_cell fm r" using o0 same by (simp add: op)
  have "fst r = fst r0 \<or> adjacent r0 ?r1"
    using same(1) unfolding adjacent_def by auto
  then have r1: "reach fm s ?r1"
  proof
    assume "fst r = fst r0"
    then have "?r1 = r0" by (simp add: prod_eq_iff)
    with r0 show ?thesis by simp
  next
    assume "adjacent r0 ?r1"
    with r0 show ?thesis using o1 by (rule reach.step)
  qed
  have "snd r = snd r0 \<or> adjacent ?r1 r"
    using same(2) unfolding adjacent_def by auto
  then show ?thesis
  proof
    assume "snd r = snd r0"
    then have "?r1 = r" by (simp add: prod_eq_iff)
    with r1 show ?thesis by simp
  next
    assume "adjacent ?r1 r"
    with r1 show ?thesis using o2 by (rule reach.step)
  qed
qed

lemma adjacent_blocks:
  assumes "adjacent p q"
  shows "\<exists>rp rq. fst rp div 2 = fst p \<and> snd rp div 2 = snd p \<and>
                 fst rq div 2 = fst q \<and> snd rq div 2 = snd q \<and> adjacent rp rq"
proof -
  from assms have
    "(fst q = fst p + 1 \<and> snd q = snd p) \<or> (fst q = fst p - 1 \<and> snd q = snd p) \<or>
     (fst q = fst p \<and> snd q = snd p + 1) \<or> (fst q = fst p \<and> snd q = snd p - 1)"
    unfolding adjacent_def by arith
  then consider
    "fst q = fst p + 1" "snd q = snd p" | "fst q = fst p - 1" "snd q = snd p" |
    "fst q = fst p" "snd q = snd p + 1" | "fst q = fst p" "snd q = snd p - 1"
    by blast
  then show ?thesis
  proof cases
    case 1
    then show ?thesis
      by (intro exI [of _ "(2 * fst p + 1, 2 * snd p)"] exI [of _ "(2 * fst p + 2, 2 * snd p)"])
         (simp add: adjacent_def)
  next
    case 2
    then show ?thesis
      by (intro exI [of _ "(2 * fst p, 2 * snd p)"] exI [of _ "(2 * fst p - 1, 2 * snd p)"])
         (simp add: adjacent_def)
  next
    case 3
    then show ?thesis
      by (intro exI [of _ "(2 * fst p, 2 * snd p + 1)"] exI [of _ "(2 * fst p, 2 * snd p + 2)"])
         (simp add: adjacent_def)
  next
    case 4
    then show ?thesis
      by (intro exI [of _ "(2 * fst p, 2 * snd p)"] exI [of _ "(2 * fst p, 2 * snd p - 1)"])
         (simp add: adjacent_def)
  qed
qed

lemma reach_blocks:
  assumes op: "\<And>r. open_cell fm r \<longleftrightarrow> open_cell mz (fst r div 2, snd r div 2)"
    and p: "reach mz s p"
  shows "\<forall>r. fst r div 2 = fst p \<and> snd r div 2 = snd p \<longrightarrow> reach fm (2 * fst s, 2 * snd s) r"
  using p
proof (induction rule: reach.induct)
  case start
  have "open_cell fm (2 * fst s, 2 * snd s)" using start by (simp add: op)
  then have base: "reach fm (2 * fst s, 2 * snd s) (2 * fst s, 2 * snd s)" by (rule reach.start)
  show ?case
  proof (intro allI impI)
    fix r assume "fst r div 2 = fst s \<and> snd r div 2 = snd s"
    then show "reach fm (2 * fst s, 2 * snd s) r"
      using block_reach [OF op base, of r] by simp
  qed
next
  case (step p q)
  from adjacent_blocks [OF step.hyps(2)] obtain rp rq where
    rp: "fst rp div 2 = fst p" "snd rp div 2 = snd p"
    and rq: "fst rq div 2 = fst q" "snd rq div 2 = snd q" and adj: "adjacent rp rq"
    by blast
  from step.IH rp have rrp: "reach fm (2 * fst s, 2 * snd s) rp" by blast
  have orq: "open_cell fm rq" using step.hyps(3) rq by (simp add: op)
  from rrp adj orq have base: "reach fm (2 * fst s, 2 * snd s) rq" by (rule reach.step)
  show ?case
  proof (intro allI impI)
    fix r assume "fst r div 2 = fst q \<and> snd r div 2 = snd q"
    then show "reach fm (2 * fst s, 2 * snd s) r"
      using block_reach [OF op base, of r] rq by simp
  qed
qed

lemma expand_connected:
  assumes "maze_dims mz w h" "connected_from mz s"
  shows "connected_from (expand w h mz) (2 * fst s, 2 * snd s)"
  unfolding connected_from_def
proof (intro allI impI)
  fix r assume "open_cell (expand w h mz) r"
  then have "open_cell mz (fst r div 2, snd r div 2)"
    by (simp add: open_cell_expand [OF assms(1)])
  with assms(2) have "reach mz s (fst r div 2, snd r div 2)"
    unfolding connected_from_def by blast
  from reach_blocks [OF open_cell_expand [OF assms(1)] this, THEN spec, of r] show
    "reach (expand w h mz) (2 * fst s, 2 * snd s) r"
    by simp
qed

subsection \<open>The maze that \<^verbatim>\<open>__create_maze\<close> returns\<close>

lemma carve_small: "carve 99 even_draws 0 7 7 = Some (Inr (small_carved, 24))"
  by code_simp

lemma polish_small: "polish 1 7 7 small_carved = small_polished"
  by code_simp

lemma expand_small: "expand 7 7 small_polished = small_maze"
  by code_simp

lemma create_small: "create_maze 99 even_draws 0 small_map = Some (Inr (small_maze, 24))"
proof -
  have "half_trunc (width small_map) = 7" "half_trunc (height small_map) = 7"
    "half_trunc (border_size small_map) = 1" "size_rows small_map mod 2 = 0"
    "size_cols small_map mod 2 = 0" "border_size small_map mod 2 = 0"
    by (simp_all add: small_map_def Map_init_def width_def height_def half_trunc_def)
  then show ?thesis
    by (simp add: create_maze_def carve_small polish_small expand_small)
qed

lemma carve_positive:
  assumes "carve fuel rnd k w h = Some (Inr (mz, k'))"
  shows "0 < w \<and> 0 < h"
proof -
  from assms obtain mz1 where
    "setitem2 (replicate (nat h) (replicate (nat w) WALL)) (half_trunc h) (half_trunc w) AIR = Inr mz1"
    by (auto simp: carve_def start_cell_def Let_def split: sum.splits option.splits prod.splits)
  from start_cell_written [OF this] show ?thesis
    by (simp add: is_within_bounds_def)
qed

lemma inner_open_zero:
  assumes "maze_dims mz w h"
  shows "inner_open 0 w h mz"
  unfolding inner_open_def
  by (auto simp: open_cell_dims [OF assms] in_border_def is_within_bounds_def)

lemma polish_expand_connected:
  assumes run: "carve fuel rnd k w h = Some (Inr (mz, k'))"
    and b: "0 \<le> b" and inner: "inner_open b w h mz"
  shows "maze_dims (polish b w h mz) w h \<and>
         open_cell (polish b w h mz) (start_cell w h) \<and>
         connected_from (polish b w h mz) (start_cell w h) \<and>
         open_cell (expand w h (polish b w h mz))
           (2 * fst (start_cell w h), 2 * snd (start_cell w h)) \<and>
         connected_from (expand w h (polish b w h mz))
           (2 * fst (start_cell w h), 2 * snd (start_cell w h))"
proof -
  from carve_connected [OF run] inner
  have I: "inner_connected b w h (start_cell w h) mz" and o: "open_cell mz (start_cell w h)"
    by (simp_all add: inner_connected_def)
  from polish_connected [OF b I]
  have d: "maze_dims (polish b w h mz) w h"
    and c: "connected_from (polish b w h mz) (start_cell w h)"
    and g: "grows mz (polish b w h mz)"
    by (simp_all add: inner_connected_def)
  from g o have o': "open_cell (polish b w h mz) (start_cell w h)"
    unfolding grows_def by blast
  then have "open_cell (expand w h (polish b w h mz))
               (2 * fst (start_cell w h), 2 * snd (start_cell w h))"
    by (simp add: open_cell_expand [OF d])
  with d c o' expand_connected [OF d c] show ?thesis by simp
qed

lemma create_maze_connected:
  assumes run: "create_maze fuel rnd k m = Some (Inr (full, k'))"
    and b: "border_size m = 2" and w: "size_cols m mod 8 = 6" and h: "size_rows m mod 8 = 6"
  shows "open_cell full (2 * half_trunc (half_trunc (width m)), 2 * half_trunc (half_trunc (height m))) \<and>
         connected_from full
           (2 * half_trunc (half_trunc (width m)), 2 * half_trunc (half_trunc (height m)))"
proof -
  let ?w = "half_trunc (width m)" and ?h = "half_trunc (height m)"
  have hb: "half_trunc (border_size m) = 1" by (simp add: b half_trunc_def)
  from run obtain mz where c: "carve fuel rnd k ?w ?h = Some (Inr (mz, k'))"
    and full: "full = expand ?w ?h (polish 1 ?w ?h mz)"
    by (auto simp: create_maze_def Let_def hb split: if_splits option.splits sum.splits)
  from carve_positive [OF c] have pos: "0 < ?w" "0 < ?h" by simp_all
  then have "0 \<le> size_cols m" "0 \<le> size_rows m"
    by (auto simp: half_trunc_def width_def height_def split: if_splits)
  then have "?w = size_cols m div 2" "?h = size_rows m div 2"
    by (simp_all add: half_trunc_def width_def height_def)
  with w h have "?w mod 4 = 3" "?h mod 4 = 3" by presburger+
  with c have "inner_open 1 ?w ?h mz" by (rule carve_inner)
  from polish_expand_connected [OF c _ this] show ?thesis
    by (simp add: full start_cell_def)
qed

lemma create_maze_returns:
  "create_maze (2 * (nat (half_trunc (width m)) * nat (half_trunc (height m))) + 1) rnd k m \<noteq> None"
  using carve_returns [of "half_trunc (width m)" "half_trunc (height m)" rnd k]
  by (auto simp: create_maze_def Let_def split: option.splits sum.splits)

lemma carve_no_error:
  assumes "0 < w" "0 < h"
  shows "carve fuel rnd k w h \<noteq> Some (Inl e)"
proof -
  from assms have "0 \<le> half_trunc w" "half_trunc w < w" "0 \<le> half_trunc h" "half_trunc h < h"
    by (auto simp: half_trunc_def)
  then have "setitem2 (replicate (nat h) (replicate (nat w) WALL)) (half_trunc h) (half_trunc w) AIR
               = Inr (set_cell (replicate (nat h) (replicate (nat w) WALL)) (half_trunc w) (half_trunc h) AIR)"
    by (simp add: setitem2_def getitem_def setitem_def py_index_def set_cell_def)
  then show ?thesis
    by (auto simp: carve_def start_cell_def Let_def split: option.splits)
qed

lemma blank_border: "border_size blank_map = 2"
  by (simp add: blank_map_def generate_setup_def Map_init_def clear_def Let_def)

lemma create_blank:
  "\<exists>full j. create_maze 1923 rnd k blank_map = Some (Inr (full, j)) \<and>
     open_cell full (30, 30) \<and> connected_from full (30, 30)"
proof -
  have hw: "half_trunc (width blank_map) = 31" "half_trunc (height blank_map) = 31"
    by (simp_all add: width_def height_def blank_simps half_trunc_def)
  have "carve 1923 rnd k 31 31 \<noteq> None"
    using carve_returns [of 31 31 rnd k] by simp
  moreover have "carve 1923 rnd k 31 31 \<noteq> Some (Inl e)" for e
    by (rule carve_no_error) simp_all
  ultimately obtain mz j where c: "carve 1923 rnd k 31 31 = Some (Inr (mz, j))"
    by (cases "carve 1923 rnd k 31 31") (auto, metis old.prod.exhaust sum.exhaust_sel sum.collapse)
  have hb: "half_trunc (border_size blank_map) = 1"
    by (simp add: blank_border half_trunc_def)
  have bm: "border_size blank_map mod 2 = 0"
    by (simp add: blank_border)
  have hs: "half_trunc 31 = 15"
    by (simp add: half_trunc_def)
  from c have run: "create_maze 1923 rnd k blank_map
                    = Some (Inr (expand 31 31 (polish 1 31 31 mz), j))"
    by (simp add: create_maze_def hw hb bm blank_simps)
  from create_maze_connected [OF run blank_border] run show ?thesis
    by (simp add: blank_simps hw hs)
qed

text \<open>
  C10, as the code has it. For every size of the half-size grid and every sequence of
  draws the carving loop ends, and the maze it leaves (with the start cell marked again,
  before the border is forced to walls and the marked cells are widened) is connected: the
  start cell is open and every open cell is reached from it along axis neighbours.
  The border and widening pass and the expansion keep this whenever no carved cell lies
  in the border margin: then the start cell of the polished maze is open and reaches every
  open cell, and so does the cell twice as far out in the expanded maze. No carved cell
  lies in a margin of width 0, nor in a margin of width 1 when both half sizes are 3 modulo
  4. So \<^verbatim>\<open>__create_maze\<close> returns a connected maze for border 2 and sizes that are 6 modulo
  8; for the 62 by 62 map of \<^verbatim>\<open>generate\<close> it returns one for every sequence of draws.
\<close>

theorem carved_maze_connected:
  "carve (2 * (nat w * nat h) + 1) rnd k w h \<noteq> None \<and>
   (carve fuel rnd k w h = Some (Inr (mz, k')) \<longrightarrow>
      maze_dims mz w h \<and> open_cell mz (start_cell w h) \<and> connected_from mz (start_cell w h) \<and>
      inner_open 0 w h mz \<and>
      (w mod 4 = 3 \<and> h mod 4 = 3 \<longrightarrow> inner_open 1 w h mz) \<and>
      (0 \<le> b \<and> inner_open b w h mz \<longrightarrow>
         open_cell (polish b w h mz) (start_cell w h) \<and>
         connected_from (polish b w h mz) (start_cell w h) \<and>
         open_cell (expand w h (polish b w h mz))
           (2 * fst (start_cell w h), 2 * snd (start_cell w h)) \<and>
         connected_from (expand w h (polish b w h mz))
           (2 * fst (start_cell w h), 2 * snd (start_cell w h)))) \<and>
   (create_maze fuel rnd k m = Some (Inr (full, k'')) \<and> border_size m = 2 \<and>
      size_cols m mod 8 = 6 \<and> size_rows m mod 8 = 6 \<longrightarrow>
      open_cell full (2 * half_trunc (half_trunc (width m)), 2 * half_trunc (half_trunc (height m))) \<and>
      connected_from full
        (2 * half_trunc (half_trunc (width m)), 2 * half_trunc (half_trunc (height m)))) \<and>
   (\<exists>game j. create_maze 1923 rnd k blank_map = Some (Inr (game, j)) \<and>
      open_cell game (30, 30) \<and> connected_from game (30, 30))"
proof (intro conjI impI)
  show "carve (2 * (nat w * nat h) + 1) rnd k w h \<noteq> None" by (rule carve_returns)
next
  assume r: "carve fuel rnd k w h = Some (Inr (mz, k'))"
  from carve_connected [OF r]
  show "maze_dims mz w h" "open_cell mz (start_cell w h)" "connected_from mz (start_cell w h)"
    by simp_all
  then show "inner_open 0 w h mz" by (simp add: inner_open_zero)
next
  assume "carve fuel rnd k w h = Some (Inr (mz, k'))" "w mod 4 = 3 \<and> h mod 4 = 3"
  then show "inner_open 1 w h mz" by (simp add: carve_inner)
next
  assume r: "carve fuel rnd k w h = Some (Inr (mz, k'))" and "0 \<le> b \<and> inner_open b w h mz"
  then have "0 \<le> b" "inner_open b w h mz" by simp_all
  from polish_expand_connected [OF r this]
  show "open_cell (polish b w h mz) (start_cell w h)"
    "connected_from (polish b w h mz) (start_cell w h)"
    "open_cell (expand w h (polish b w h mz))
       (2 * fst (start_cell w h), 2 * snd (start_cell w h))"
    "connected_from (expand w h (polish b w h mz))
       (2 * fst (start_cell w h), 2 * snd (start_cell w h))"
    by simp_all
next
  assume a: "create_maze fuel rnd k m = Some (Inr (full, k'')) \<and> border_size m = 2 \<and>
      size_cols m mod 8 = 6 \<and> size_rows m mod 8 = 6"
  then have "create_maze fuel rnd k m = Some (Inr (full, k''))" "border_size m = 2"
    "size_cols m mod 8 = 6" "size_rows m mod 8 = 6" by simp_all
  from create_maze_connected [OF this]
  show "open_cell full (2 * half_trunc (half_trunc (width m)), 2 * half_trunc (half_trunc (height m)))"
    "connected_from full
        (2 * half_trunc (half_trunc (width m)), 2 * half_trunc (half_trunc (height m)))"
    by simp_all
next
  show "\<exists>game j. create_maze 1923 rnd k blank_map = Some (Inr (game, j)) \<and>
      open_cell game (30, 30) \<and> connected_from game (30, 30)"
    by (rule create_blank)
qed

theorem carved_maze_connected_witness:
  "carve 99 even_draws 0 7 7 = Some (Inr (small_carved, 24)) \<and>
   start_cell 7 7 = (3, 3) \<and> open_cell small_carved (3, 3) \<and>
   connected_from small_carved (3, 3) \<and> inner_open 1 7 7 small_carved \<and>
   polish 1 7 7 small_carved = small_polished \<and>
   open_cell small_polished (3, 3) \<and> connected_from small_polished (3, 3) \<and>
   (create_maze 99 even_draws 0 small_map = Some (Inr (small_maze, 24)) \<and>
    border_size small_map = 2 \<and> size_cols small_map mod 8 = 6 \<and> size_rows small_map mod 8 = 6) \<and>
   open_cell small_maze (6, 6) \<and> connected_from small_maze (6, 6)"
proof -
  have st: "start_cell 7 7 = (3, 3)"
    by (simp add: start_cell_def half_trunc_def)
  have m: "border_size small_map = 2" "size_cols small_map mod 8 = 6"
    "size_rows small_map mod 8 = 6" "half_trunc (half_trunc (width small_map)) = 3"
    "half_trunc (half_trunc (height small_map)) = 3"
    by (simp_all add: small_map_def Map_init_def width_def height_def half_trunc_def)
  from carved_maze_connected [where w = 7 and h = 7 and rnd = even_draws and k = 0
      and fuel = 99 and mz = small_carved and k' = 24 and b = 1 and m = small_map
      and full = small_maze and k'' = 24]
  show ?thesis
    by (simp add: carve_small create_small polish_small st m)
qed

text \<open>
  C10, as the claim states it for all even sizes, fails after the border and widening
  pass (\<^verbatim>\<open>__create_maze\<close> reads the size from the map; \<^verbatim>\<open>generate\<close> always sets it to 62 by
  62, where the maze stays connected). For a map of 8
  columns and 24 rows with border 2 (both even, \<open>2 < min 8 24 / 2\<close>) and the draws
  \<open>0, 2, 4, \<dots>\<close> the loop carves a connected maze whose only way from the start cell
  \<open>(2, 6)\<close> to the rows above row 3 runs through column 0. The pass turns column 0 into
  walls, so row 3 is all wall afterwards and the open cell \<open>(2, 1)\<close> is cut off; in the
  expanded maze rows 6 and 7 are all wall, and \<open>(4, 2)\<close> is cut off from \<open>(4, 12)\<close>.
\<close>

theorem widened_maze_split:
  "carve 23 even_draws 0 4 12 = Some (Inr (tall_carved, 33)) \<and>
   start_cell 4 12 = (2, 6) \<and>
   connected_from tall_carved (2, 6) \<and>
   polish 1 4 12 tall_carved = tall_polished \<and>
   open_cell tall_polished (2, 6) \<and> open_cell tall_polished (2, 1) \<and>
   \<not> reach tall_polished (2, 6) (2, 1) \<and>
   \<not> connected_from tall_polished (2, 6) \<and>
   create_maze 23 even_draws 0 tall_map = Some (Inr (tall_maze, 33)) \<and>
   open_cell tall_maze (4, 12) \<and> open_cell tall_maze (4, 2) \<and>
   \<not> reach tall_maze (4, 12) (4, 2) \<and>
   \<not> connected_from tall_maze (4, 12)"
proof -
  have st: "start_cell 4 12 = (2, 6)"
    by (simp add: start_cell_def half_trunc_def)
  have c: "connected_from tall_carved (2, 6)"
    using carve_connected [OF carve_tall] by (simp add: st)
  have o: "open_cell tall_polished (2, 6)" "open_cell tall_polished (2, 1)"
    "open_cell tall_maze (4, 12)" "open_cell tall_maze (4, 2)"
    by (simp_all add: open_cell_def cell_at_def tall_polished_def tall_maze_def)
  have r1: "\<not> reach tall_polished (2, 6) (2, 1)"
    using tall_polished_reach [of "(2, 1)"] by auto
  have r2: "\<not> reach tall_maze (4, 12) (4, 2)"
    using tall_maze_reach [of "(4, 2)"] by auto
  from r1 o have n1: "\<not> connected_from tall_polished (2, 6)"
    unfolding connected_from_def by blast
  from r2 o have n2: "\<not> connected_from tall_maze (4, 12)"
    unfolding connected_from_def by blast
  from carve_tall st c polish_tall o r1 n1 create_tall r2 n2 show ?thesis
    by simp
qed

end
